theory Spec2Isabelle
  imports Complex_Main
begin

section \<open>Strings as Python sees them\<close>

text \<open>
  A Python \<open>str\<close> is modelled as a \<open>string\<close> (a list of \<open>char\<close>), each \<open>char\<close> standing
  for one code point below 256. The predicates below are Python's \<open>str.isspace\<close>, the line
  boundaries of \<open>str.splitlines\<close>, the word characters of the regular expression class
  \<open>\w\<close> and \<open>str.lower\<close>, each restricted to these code points.
\<close>

definition LF :: char where
  "LF = CHR 0x0A"

definition CR :: char where
  "CR = CHR 0x0D"

definition is_space :: "char \<Rightarrow> bool" where
  "is_space c = (let n = (of_char c :: nat) in
     (9 \<le> n \<and> n \<le> 13) \<or> (28 \<le> n \<and> n \<le> 32) \<or> n = 133 \<or> n = 160)"

definition is_linebreak :: "char \<Rightarrow> bool" where
  "is_linebreak c = (let n = (of_char c :: nat) in
     (10 \<le> n \<and> n \<le> 13) \<or> (28 \<le> n \<and> n \<le> 30) \<or> n = 133)"

definition is_word_char :: "char \<Rightarrow> bool" where
  "is_word_char c = (let n = (of_char c :: nat) in
     (48 \<le> n \<and> n \<le> 57) \<or> (65 \<le> n \<and> n \<le> 90) \<or> n = 95 \<or> (97 \<le> n \<and> n \<le> 122)
     \<or> n = 170 \<or> n = 178 \<or> n = 179 \<or> n = 181 \<or> n = 185 \<or> n = 186
     \<or> (188 \<le> n \<and> n \<le> 190) \<or> (192 \<le> n \<and> n \<le> 214) \<or> (216 \<le> n \<and> n \<le> 246)
     \<or> (248 \<le> n \<and> n \<le> 255))"

definition lower_char :: "char \<Rightarrow> char" where
  "lower_char c = (let n = (of_char c :: nat) in
     if (65 \<le> n \<and> n \<le> 90) \<or> (192 \<le> n \<and> n \<le> 222 \<and> n \<noteq> 215)
     then char_of (n + 32) else c)"

definition lower :: "string \<Rightarrow> string" where
  "lower s = map lower_char s"

text \<open>\<open>s.strip()\<close>: whitespace removed at both ends.\<close>

definition lstrip :: "string \<Rightarrow> string" where
  "lstrip s = dropWhile is_space s"

definition rstrip :: "string \<Rightarrow> string" where
  "rstrip s = rev (dropWhile is_space (rev s))"

definition strip :: "string \<Rightarrow> string" where
  "strip s = rstrip (lstrip s)"

text \<open>\<open>s.startswith(p)\<close>, \<open>s.endswith(p)\<close> and the substring test \<open>p in s\<close>.\<close>

definition startswith :: "string \<Rightarrow> string \<Rightarrow> bool" where
  "startswith s p = (take (length p) s = p)"

definition endswith :: "string \<Rightarrow> string \<Rightarrow> bool" where
  "endswith s p = (length p \<le> length s \<and> drop (length s - length p) s = p)"

fun str_in :: "string \<Rightarrow> string \<Rightarrow> bool" where
  "str_in p [] = (p = [])"
| "str_in p (c # cs) = (startswith (c # cs) p \<or> str_in p cs)"

text \<open>\<open>sep.join(xs)\<close>.\<close>

fun join :: "string \<Rightarrow> string list \<Rightarrow> string" where
  "join sep [] = []"
| "join sep [x] = x"
| "join sep (x # y # ys) = x @ sep @ join sep (y # ys)"

text \<open>\<open>str(n)\<close> for an integer: decimal digits, a minus sign for a negative number.\<close>

definition digit_char :: "nat \<Rightarrow> char" where
  "digit_char d = char_of (48 + d)"

fun str_nat :: "nat \<Rightarrow> string" where
  "str_nat n = (if n < 10 then [digit_char n] else str_nat (n div 10) @ [digit_char (n mod 10)])"

declare str_nat.simps [simp del]

definition str_int :: "int \<Rightarrow> string" where
  "str_int i = (if i < 0 then CHR ''-'' # str_nat (nat (- i)) else str_nat (nat i))"

section \<open>Exceptions, responses, configuration\<close>

text \<open>
  The exceptions of the two modules. \<open>TranscriptScrapeError\<close> carries its message, which the
  batch controller inspects; \<open>RateLimitReached\<close> carries the ticker, year and quarter its
  message is formatted from; \<open>OtherException\<close> stands for any other subclass of
  \<open>Exception\<close>, named by its class (a transport failure of the HTTP library, for instance).
\<close>

datatype exn =
    TranscriptScrapeError string
  | RateLimitReached string int int
  | ValueError string
  | FileNotFoundError string
  | OverflowError string
  | OtherException string

text \<open>What \<open>session.get\<close> returns: the fields of the response that the fetcher reads.\<close>

record response =
  status_code :: int
  resp_text :: string
  url :: string

text \<open>
  \<open>ScrapeConfig\<close>: the two fields that steer control flow. The user agent, cookies, extra
  headers and timeout only shape the request that is sent.
\<close>

record ScrapeConfig =
  max_parts :: int
  sleep_s :: real

definition ScrapeConfig_default :: ScrapeConfig where
  "ScrapeConfig_default = \<lparr>max_parts = 200, sleep_s = 0\<rparr>"

section \<open>The world outside the program\<close>

text \<open>
  The file contents the batch controller writes: the normalized text of a transcript, or the
  rows of speaker blocks of its CSV export (written under a header row).
\<close>

record SpeakerBlock =
  speaker :: string
  block_text :: string

datatype file_content = TxtFile string | CsvFile "SpeakerBlock list"

text \<open>A path is the list of its components.\<close>

type_synonym path = "string list"

text \<open>The lines the batch controller prints, by their tag, with the values they are formatted from.\<close>

datatype log_line =
    SKIP_DONE string int int
  | RATE_LIMIT string int int real int
  | OK string int int
  | SKIP string int int exn
  | ERR string int int exn

datatype event = Request string | Sleep real | Print log_line

text \<open>
  The environment is what the program cannot decide: \<open>net n u\<close> is what the \<open>n\<close>-th HTTP
  request of the run gets when it asks for \<open>u\<close> (a response, or the name of the exception the
  HTTP library raises), \<open>rnd n\<close> is the \<open>n\<close>-th draw of \<open>random.random()\<close>, and
  \<open>html_to_text\<close> is the markup stripper of the HTML library.
\<close>

record env =
  net :: "nat \<Rightarrow> string \<Rightarrow> string + response"
  rnd :: "nat \<Rightarrow> real"
  html_to_text :: "string \<Rightarrow> string"

text \<open>
  The state the program changes: how many requests and random draws it has made, the files
  on disk, and the trace of its requests, sleeps and printed lines, oldest first.
\<close>

record world =
  n_req :: nat
  n_rnd :: nat
  files :: "path \<Rightarrow> file_content option"
  trace :: "event list"

definition emit :: "event \<Rightarrow> world \<Rightarrow> world" where
  "emit e w = w\<lparr>trace := trace w @ [e]\<rparr>"

definition http_get :: "env \<Rightarrow> string \<Rightarrow> world \<Rightarrow> world \<times> (string + response)" where
  "http_get E u w = (emit (Request u) (w\<lparr>n_req := Suc (n_req w)\<rparr>), net E (n_req w) u)"

definition random :: "env \<Rightarrow> world \<Rightarrow> world \<times> real" where
  "random E w = (w\<lparr>n_rnd := Suc (n_rnd w)\<rparr>, rnd E (n_rnd w))"

text \<open>\<open>time.sleep(d)\<close> raises \<open>ValueError\<close> on a negative length.\<close>

definition time_sleep :: "real \<Rightarrow> world \<Rightarrow> world \<times> (exn + unit)" where
  "time_sleep d w =
     (if d < 0 then (w, Inl (ValueError ''sleep length must be non-negative''))
      else (emit (Sleep d) w, Inr ()))"

section \<open>The fragment fetcher\<close>

text \<open>
  \<open>_fetch_fragment\<close> after the request has returned: \<open>Inr None\<close> is the absent fragment,
  \<open>Inr (Some body)\<close> the content, \<open>Inl\<close> the raised error.
\<close>

definition fetch_fragment_response :: "response \<Rightarrow> exn + string option" where
  "fetch_fragment_response r =
     (if status_code r = 404 then Inr None
      else if status_code r \<ge> 400 then
        Inl (TranscriptScrapeError (''HTTP '' @ str_int (status_code r) @ '' for '' @ url r))
      else
        (let body = strip (resp_text r) in
         if body = [] then Inr None
         else if str_in ''Page Not Found'' body \<and> str_in ''404'' body then Inr None
         else Inr (Some body)))"

text \<open>\<open>_fetch_fragment\<close>: one request, then the classification of its response.\<close>

definition fetch_fragment :: "env \<Rightarrow> string \<Rightarrow> world \<Rightarrow> world \<times> (exn + string option)" where
  "fetch_fragment E u w =
     (case http_get E u w of
        (w', Inl x) \<Rightarrow> (w', Inl (OtherException x))
      | (w', Inr r) \<Rightarrow> (w', fetch_fragment_response r))"

section \<open>The fragment assembler\<close>

text \<open>
  The loop of \<open>get_transcript_html\<close> over the numbered parts, on the indices still to try
  and the fragments collected so far.
\<close>

fun parts_loop ::
  "env \<Rightarrow> string \<Rightarrow> ScrapeConfig \<Rightarrow> int list \<Rightarrow> string list \<Rightarrow> world \<Rightarrow> world \<times> (exn + string list)"
where
  "parts_loop E base_url cfg [] fragments w = (w, Inr fragments)"
| "parts_loop E base_url cfg (i # is) fragments w =
     (case fetch_fragment E (base_url @ str_int i @ ''/'') w of
        (w', Inl e) \<Rightarrow> (w', Inl e)
      | (w', Inr None) \<Rightarrow>
          if fragments \<noteq> [] then (w', Inr fragments)
          else parts_loop E base_url cfg is fragments w'
      | (w', Inr (Some body)) \<Rightarrow>
          if sleep_s cfg \<noteq> 0 then
            (case time_sleep (sleep_s cfg) w' of
               (w'', Inl e) \<Rightarrow> (w'', Inl e)
             | (w'', Inr _) \<Rightarrow> parts_loop E base_url cfg is (fragments @ [body]) w'')
          else parts_loop E base_url cfg is (fragments @ [body]) w')"

definition no_fragments_message :: string where
  "no_fragments_message =
     ''No transcript fragments retrieved. This may be gated (login/anti-bot) '' @
     ''or the URL pattern changed. Try passing csrftoken/cookies from the browser.''"

definition get_transcript_html ::
  "env \<Rightarrow> string \<Rightarrow> ScrapeConfig option \<Rightarrow> world \<Rightarrow> world \<times> (exn + string)"
where
  "get_transcript_html E base_url0 cfg0 w =
     (let cfg = (case cfg0 of None \<Rightarrow> ScrapeConfig_default | Some c \<Rightarrow> c);
          base_url = (if endswith base_url0 ''/'' then base_url0 else base_url0 @ ''/'')
      in case fetch_fragment E base_url w of
           (w1, Inl e) \<Rightarrow> (w1, Inl e)
         | (w1, Inr first) \<Rightarrow>
             (let fragments = (case first of None \<Rightarrow> [] | Some b \<Rightarrow> if b \<noteq> [] then [b] else [])
              in case parts_loop E base_url cfg [1..max_parts cfg] fragments w1 of
                   (w2, Inl e) \<Rightarrow> (w2, Inl e)
                 | (w2, Inr frags) \<Rightarrow>
                     if frags = [] then (w2, Inl (TranscriptScrapeError no_fragments_message))
                     else (w2, Inr (join [LF] frags))))"

section \<open>Reading a run of the assembler\<close>

text \<open>
  The vocabulary the properties of the assembler are stated in. \<open>fetch_outcome E n u\<close> is
  the outcome \<open>_fetch_fragment\<close> has when its request is the \<open>n\<close>-th of the run;
  \<open>outcome_at E w base_url j\<close> is the outcome of index \<open>j\<close> (0 the base fragment) when the
  indices are requested in order from the world \<open>w\<close>; \<open>requests_of\<close> reads the URLs
  requested off a trace, \<open>contents\<close> the bodies off a list of outcomes.
\<close>

definition fetch_outcome :: "env \<Rightarrow> nat \<Rightarrow> string \<Rightarrow> exn + string option" where
  "fetch_outcome E n u =
     (case net E n u of Inl x \<Rightarrow> Inl (OtherException x) | Inr r \<Rightarrow> fetch_fragment_response r)"

fun outcomes :: "env \<Rightarrow> nat \<Rightarrow> string \<Rightarrow> int list \<Rightarrow> (exn + string option) list" where
  "outcomes E n base_url [] = []"
| "outcomes E n base_url (i # is) =
     fetch_outcome E n (base_url @ str_int i @ ''/'') # outcomes E (Suc n) base_url is"

definition is_content :: "exn + string option \<Rightarrow> bool" where
  "is_content x = (case x of Inr (Some b) \<Rightarrow> True | _ \<Rightarrow> False)"

fun contents :: "(exn + string option) list \<Rightarrow> string list" where
  "contents [] = []"
| "contents (Inr (Some b) # xs) = b # contents xs"
| "contents (_ # xs) = contents xs"

fun requests_of :: "event list \<Rightarrow> string list" where
  "requests_of [] = []"
| "requests_of (Request u # es) = u # requests_of es"
| "requests_of (_ # es) = requests_of es"

definition fragment_url :: "string \<Rightarrow> nat \<Rightarrow> string" where
  "fragment_url base_url j = (if j = 0 then base_url else base_url @ str_int (int j) @ ''/'')"

definition outcome_at :: "env \<Rightarrow> world \<Rightarrow> string \<Rightarrow> nat \<Rightarrow> exn + string option" where
  "outcome_at E w base_url j = fetch_outcome E (n_req w + j) (fragment_url base_url j)"

definition all_outcomes :: "env \<Rightarrow> world \<Rightarrow> string \<Rightarrow> int \<Rightarrow> (exn + string option) list" where
  "all_outcomes E w base_url M =
     fetch_outcome E (n_req w) base_url # outcomes E (Suc (n_req w)) base_url [1..M]"

text \<open>
  The loop of the assembler read off the list of outcomes alone: how many outcomes it
  consumes and what it ends with. The assembler is shown to follow it, so that the stopping
  rule can be proved on lists.
\<close>

fun scan :: "(exn + string option) list \<Rightarrow> string list \<Rightarrow> nat \<times> (exn + string list)" where
  "scan [] fr = (0, Inr fr)"
| "scan (Inl e # os) fr = (1, Inl e)"
| "scan (Inr None # os) fr =
     (if fr \<noteq> [] then (1, Inr fr) else (case scan os fr of (k, r) \<Rightarrow> (Suc k, r)))"
| "scan (Inr (Some b) # os) fr = (case scan os (fr @ [b]) of (k, r) \<Rightarrow> (Suc k, r))"

section \<open>Concrete worlds for the examples\<close>

text \<open>
  A network that answers the \<open>n\<close>-th request with the \<open>n\<close>-th response of a list and with
  status 404 after that, the world before anything has run, and a page served with status 200.
\<close>

definition net_of :: "response list \<Rightarrow> nat \<Rightarrow> string \<Rightarrow> string + response" where
  "net_of rs n u =
     (if n < length rs then Inr (rs ! n) else Inr \<lparr>status_code = 404, resp_text = [], url = u\<rparr>)"

definition world_init :: world where
  "world_init = \<lparr>n_req = 0, n_rnd = 0, files = (\<lambda>p. None), trace = []\<rparr>"

definition page :: "string \<Rightarrow> response" where
  "page s = \<lparr>status_code = 200, resp_text = s, url = []\<rparr>"

text \<open>An environment whose network serves a list of responses, with every random draw 0.\<close>

definition env_pages :: "response list \<Rightarrow> env" where
  "env_pages rs = \<lparr>net = net_of rs, rnd = (\<lambda>n. 0), html_to_text = (\<lambda>s. s)\<rparr>"

section \<open>The transcript normalizer\<close>

text \<open>
  \<open>_normalize_whitespace\<close>, stage by stage. \<open>sub_line_endings\<close> is
  \<open>re.sub(r"\r\n|\r", "\n", s)\<close>: at each position the two-character ending is tried
  before the lone carriage return.
\<close>

fun sub_line_endings :: "string \<Rightarrow> string" where
  "sub_line_endings [] = []"
| "sub_line_endings [c] = [if c = CR then LF else c]"
| "sub_line_endings (c # d # ds) =
     (if c = CR then (if d = LF then LF # sub_line_endings ds else LF # sub_line_endings (d # ds))
      else c # sub_line_endings (d # ds))"

text \<open>
  \<open>sub_blank_runs\<close> is \<open>re.sub(r"\n{3,}", "\n\n", s)\<close>: where three line feeds start, the
  whole run of line feeds is consumed and two are written; elsewhere one character is copied.
\<close>

function sub_blank_runs :: "string \<Rightarrow> string" where
  "sub_blank_runs s =
     (if startswith s [LF, LF, LF] then [LF, LF] @ sub_blank_runs (dropWhile (\<lambda>c. c = LF) s)
      else (case s of [] \<Rightarrow> [] | c # cs \<Rightarrow> c # sub_blank_runs cs))"
  by pat_completeness auto
termination
proof (relation "measure length")
  show "wf (measure length)" by simp
next
  fix s :: string
  assume "startswith s [LF, LF, LF]"
  then obtain t where "s = LF # t"
    by (cases s) (auto simp: startswith_def)
  then have "length (dropWhile (\<lambda>c. c = LF) s) \<le> length t"
    by (simp add: length_dropWhile_le)
  with \<open>s = LF # t\<close> show "(dropWhile (\<lambda>c. c = LF) s, s) \<in> measure length"
    by simp
next
  fix s :: string and c cs
  assume "s = c # cs"
  then show "(cs, s) \<in> measure length" by simp
qed

declare sub_blank_runs.simps [simp del]

definition normalize_whitespace :: "string \<Rightarrow> string" where
  "normalize_whitespace s = strip (sub_blank_runs (sub_line_endings s))"

definition transcript_text_from_html :: "env \<Rightarrow> string \<Rightarrow> string" where
  "transcript_text_from_html E html = normalize_whitespace (html_to_text E html)"

text \<open>\<open>is_rate_limited_message\<close>: a limit phrase occurs in the text, whatever the case.\<close>

definition LIMIT_REACHED_PATTERNS :: "string list" where
  "LIMIT_REACHED_PATTERNS =
     [''Request Limit Reached'',
      ''Forbidden - Request Limit Reached'',
      ''You seem to have reached your request limit'']"

definition is_rate_limited_message :: "string \<Rightarrow> bool" where
  "is_rate_limited_message t = list_ex (\<lambda>p. str_in (lower p) (lower t)) LIMIT_REACHED_PATTERNS"

section \<open>The speaker segmenter\<close>

text \<open>\<open>s.splitlines()\<close>: \<open>cur\<close> is the line being read.\<close>

fun splitlines_from :: "string \<Rightarrow> string \<Rightarrow> string list" where
  "splitlines_from cur [] = (if cur = [] then [] else [cur])"
| "splitlines_from cur [c] = (if is_linebreak c then [cur] else [cur @ [c]])"
| "splitlines_from cur (c # d # ds) =
     (if c = CR \<and> d = LF then cur # splitlines_from [] ds
      else if is_linebreak c then cur # splitlines_from [] (d # ds)
      else splitlines_from (cur @ [c]) (d # ds))"

definition splitlines :: "string \<Rightarrow> string list" where
  "splitlines s = splitlines_from [] s"

text \<open>\<open>s.split()\<close>: the maximal runs of characters that are not whitespace.\<close>

fun split_from :: "string \<Rightarrow> string \<Rightarrow> string list" where
  "split_from cur [] = (if cur = [] then [] else [cur])"
| "split_from cur (c # cs) =
     (if is_space c then (if cur = [] then split_from [] cs else cur # split_from [] cs)
      else split_from (cur @ [c]) cs)"

definition split :: "string \<Rightarrow> string list" where
  "split s = split_from [] s"

text \<open>
  The search for \<open>\b(Fiscal|Quarter|FY|Download|Insights|Privacy|Terms|Disclaimer)\b\<close>
  under \<open>re.I\<close>: at some position a word of the list matches whatever the case, with a word
  boundary before and after it. \<open>prev\<close> is the character before the position, if any.
\<close>

definition denylist :: "string list" where
  "denylist = [''fiscal'', ''quarter'', ''fy'', ''download'', ''insights'', ''privacy'',
               ''terms'', ''disclaimer'']"

definition word_boundary :: "char option \<Rightarrow> char option \<Rightarrow> bool" where
  "word_boundary a b =
     ((case a of None \<Rightarrow> False | Some c \<Rightarrow> is_word_char c)
      \<noteq> (case b of None \<Rightarrow> False | Some c \<Rightarrow> is_word_char c))"

definition denylist_match_here :: "char option \<Rightarrow> string \<Rightarrow> bool" where
  "denylist_match_here prev s =
     list_ex (\<lambda>w. startswith (lower s) w
                 \<and> word_boundary prev (case s of [] \<Rightarrow> None | c # _ \<Rightarrow> Some c)
                 \<and> word_boundary (Some (s ! (length w - 1)))
                      (if length w < length s then Some (s ! length w) else None))
       denylist"

fun denylist_search :: "char option \<Rightarrow> string \<Rightarrow> bool" where
  "denylist_search prev [] = False"
| "denylist_search prev (c # cs) =
     (denylist_match_here prev (c # cs) \<or> denylist_search (Some c) cs)"

definition looks_like_speaker :: "string \<Rightarrow> bool" where
  "looks_like_speaker line =
     (if length line > 60 then False
      else if denylist_search None line then False
      else if list_ex (\<lambda>ch. ch \<in> set line) ''.!?'' then False
      else (let w = split line in 1 \<le> length w \<and> length w \<le> 5))"

text \<open>
  The state of the loop of \<open>_parse_speaker_blocks_from_text\<close>: the blocks so far, the
  current speaker and the buffered lines. \<open>flush\<close> is the inner function of that name.
\<close>

type_synonym seg_state = "SpeakerBlock list \<times> string option \<times> string list"

definition truthy :: "string option \<Rightarrow> bool" where
  "truthy s = (case s of None \<Rightarrow> False | Some x \<Rightarrow> x \<noteq> [])"

definition flush :: "seg_state \<Rightarrow> seg_state" where
  "flush st =
     (case st of (blocks, current_speaker, buf) \<Rightarrow>
        (if truthy current_speaker \<and> buf \<noteq> []
         then blocks @ [\<lparr>speaker = the current_speaker,
                          block_text = normalize_whitespace (join '' '' buf)\<rparr>]
         else blocks,
         current_speaker, []))"

fun segment_loop :: "string list \<Rightarrow> seg_state \<Rightarrow> seg_state" where
  "segment_loop [] st = st"
| "segment_loop (line # lns) st =
     (if looks_like_speaker line then
        (case flush st of (blocks, current_speaker, buf) \<Rightarrow> segment_loop lns (blocks, Some line, buf))
      else
        (case st of (blocks, current_speaker, buf) \<Rightarrow>
           if truthy current_speaker then segment_loop lns (blocks, current_speaker, buf @ [line])
           else segment_loop lns st))"

text \<open>The lines the loop runs over: each line stripped, the empty ones dropped.\<close>

definition lines_of :: "string \<Rightarrow> string list" where
  "lines_of full_text = filter (\<lambda>line. line \<noteq> []) (map strip (splitlines full_text))"

text \<open>The blocks after the loop and the last \<open>flush\<close>, before the fallback.\<close>

definition segment_blocks :: "string list \<Rightarrow> SpeakerBlock list" where
  "segment_blocks lns = fst (flush (segment_loop lns ([], None, [])))"

definition parse_speaker_blocks_from_text :: "string \<Rightarrow> SpeakerBlock list" where
  "parse_speaker_blocks_from_text full_text =
     (let blocks = segment_blocks (lines_of full_text)
      in if blocks = [] then [\<lparr>speaker = ''Unknown'', block_text = full_text\<rparr>] else blocks)"

definition speaker_blocks_from_text :: "string \<Rightarrow> SpeakerBlock list" where
  "speaker_blocks_from_text full_text = parse_speaker_blocks_from_text full_text"

section \<open>The batch retry controller\<close>

text \<open>
  \<open>_backoff_delay_s\<close>. Delays are real numbers here, rounding left aside, but the range of
  a float is kept: \<open>2 ** attempt\<close> is an integer for a non-negative attempt, and the product
  \<open>base * (2 ** attempt)\<close> converts it to a float, which raises \<open>OverflowError\<close> from
  \<open>2 ** 1024\<close> on. The exception is raised before the random number is drawn.
\<close>

definition pow2 :: "int \<Rightarrow> real" where
  "pow2 n = (if 0 \<le> n then 2 ^ nat n else 1 / 2 ^ nat (- n))"

definition backoff_delay_s ::
  "env \<Rightarrow> int \<Rightarrow> real \<Rightarrow> real \<Rightarrow> world \<Rightarrow> world \<times> (exn + real)"
where
  "backoff_delay_s E attempt base cap w =
     (if 1024 \<le> attempt then (w, Inl (OverflowError ''int too large to convert to float''))
      else (let delay = min cap (base * pow2 attempt)
            in case random E w of (w1, r) \<Rightarrow> (w1, Inr (delay * (0.7 + r * 0.6)))))"

definition sleep_with_jitter :: "env \<Rightarrow> real \<Rightarrow> real \<Rightarrow> world \<Rightarrow> world \<times> (exn + unit)" where
  "sleep_with_jitter E base_s jitter_s w =
     (if base_s \<le> 0 \<and> jitter_s \<le> 0 then (w, Inr ())
      else case random E w of (w1, r) \<Rightarrow> time_sleep (max 0 (base_s + r * max 0 jitter_s)) w1)"

text \<open>
  \<open>_read_tickers_from_sandp_csv\<close>, on the text of the ticker file (\<open>None\<close> when the file does
  not exist).
\<close>

definition read_tickers_from_sandp_csv :: "string option \<Rightarrow> exn + string list" where
  "read_tickers_from_sandp_csv csv =
     (case csv of
        None \<Rightarrow> Inl (FileNotFoundError ''Ticker file not found'')
      | Some content \<Rightarrow>
          (let lines = filter (\<lambda>line. line \<noteq> []) (map strip (splitlines content))
           in if lines = [] then Inr []
              else if \<not> str_in ''act_symbol'' (lower (hd lines))
              then Inl (ValueError ''Expected header act_symbol'')
              else Inr (filter (\<lambda>t. t \<noteq> [])
                     (map (\<lambda>line. strip (takeWhile (\<lambda>c. c \<noteq> CHR '','') line)) (tl lines)))))"

text \<open>\<open>_safe_filename\<close>: every run of characters outside \<open>[A-Za-z0-9._-]\<close> becomes one underscore.\<close>

definition is_safe_char :: "char \<Rightarrow> bool" where
  "is_safe_char c = (let n = (of_char c :: nat) in
     (48 \<le> n \<and> n \<le> 57) \<or> (65 \<le> n \<and> n \<le> 90) \<or> (97 \<le> n \<and> n \<le> 122)
     \<or> n = 46 \<or> n = 95 \<or> n = 45)"

fun safe_filename_from :: "bool \<Rightarrow> string \<Rightarrow> string" where
  "safe_filename_from in_run [] = []"
| "safe_filename_from in_run (c # cs) =
     (if is_safe_char c then c # safe_filename_from False cs
      else if in_run then safe_filename_from True cs
      else CHR ''_'' # safe_filename_from True cs)"

definition safe_filename :: "string \<Rightarrow> string" where
  "safe_filename s = safe_filename_from False s"

text \<open>
  \<open>p.exists() and p.stat().st_size > 0\<close>: a text file has a byte when its text has a
  character; a CSV export always has its header row.
\<close>

definition file_nonempty :: "world \<Rightarrow> path \<Rightarrow> bool" where
  "file_nonempty w p =
     (case files w p of None \<Rightarrow> False | Some (TxtFile t) \<Rightarrow> t \<noteq> [] | Some (CsvFile bs) \<Rightarrow> True)"

definition already_processed :: "path \<Rightarrow> string \<Rightarrow> bool \<Rightarrow> bool \<Rightarrow> world \<Rightarrow> bool" where
  "already_processed ticker_dir stem save_txt save_csv w =
     (let expected = (if save_txt then [ticker_dir @ [stem @ ''.txt'']] else [])
                   @ (if save_csv then [ticker_dir @ [stem @ ''.csv'']] else [])
      in if expected = [] then False else list_all (file_nonempty w) expected)"

definition save_transcript_txt_from_text :: "string \<Rightarrow> string \<Rightarrow> path \<Rightarrow> world \<Rightarrow> world" where
  "save_transcript_txt_from_text txt name output_dir w =
     w\<lparr>files := (files w)(output_dir @ [name] \<mapsto> TxtFile txt)\<rparr>"

definition save_transcript_csv_from_blocks :: "SpeakerBlock list \<Rightarrow> string \<Rightarrow> path \<Rightarrow> world \<Rightarrow> world" where
  "save_transcript_csv_from_blocks blocks name output_dir w =
     w\<lparr>files := (files w)(output_dir @ [name] \<mapsto> CsvFile blocks)\<rparr>"

text \<open>
  The arguments of \<open>fetch_all_transcripts_for_year\<close> that stay fixed over a run, the
  configuration already defaulted. The fields carry the parameters' names behind \<open>arg_\<close>.
\<close>

record args =
  arg_year :: int
  arg_output_dir :: string
  arg_quarters :: "int list"
  arg_save_txt :: bool
  arg_save_csv :: bool
  arg_cfg :: ScrapeConfig
  arg_sleep_s :: real
  arg_jitter_s :: real
  arg_max_rate_limit_retries :: int

definition unit_url :: "string \<Rightarrow> int \<Rightarrow> int \<Rightarrow> string" where
  "unit_url raw_ticker yr q =
     ''https://discountingcashflows.com/company/'' @ raw_ticker @ ''/transcripts/''
       @ str_int yr @ ''/'' @ str_int q @ ''/''"

definition unit_stem :: "string \<Rightarrow> int \<Rightarrow> int \<Rightarrow> string" where
  "unit_stem ticker_safe yr q = ticker_safe @ ''_'' @ str_int yr @ ''_Q'' @ str_int q"

text \<open>
  One pass through the body of \<open>while True\<close>, with how it leaves the body: \<open>Continue\<close> to
  retry with the attempt count one higher, \<open>Break\<close> to end the unit, \<open>Raise\<close> for an exception that leaves
  \<open>fetch_all_transcripts_for_year\<close>. An exception raised inside the \<open>try\<close> block is
  dispatched to the handlers; one raised inside a handler propagates.
\<close>

datatype ctl = Continue | Break | Raise exn

definition attempt_body :: "env \<Rightarrow> args \<Rightarrow> string \<Rightarrow> int \<Rightarrow> int \<Rightarrow> world \<Rightarrow> world \<times> ctl" where
  "attempt_body E A raw_ticker q attempt w =
     (let ticker_safe = safe_filename raw_ticker;
          ticker_dir = [arg_output_dir A, ticker_safe];
          stem = unit_stem ticker_safe (arg_year A) q
      in case get_transcript_html E (unit_url raw_ticker (arg_year A) q) (Some (arg_cfg A)) w of
           (w1, Inr html) \<Rightarrow>
             (let txt = transcript_text_from_html E html in
              if is_rate_limited_message txt then
                (if attempt \<ge> arg_max_rate_limit_retries A
                 then (w1, Raise (RateLimitReached raw_ticker (arg_year A) q))
                 else (case backoff_delay_s E attempt 15 600 w1 of
                         (w2, Inl e) \<Rightarrow> (emit (Print (ERR raw_ticker (arg_year A) q e)) w2, Break)
                       | (w2, Inr delay) \<Rightarrow>
                           (case time_sleep delay
                                   (emit (Print (RATE_LIMIT raw_ticker (arg_year A) q delay (attempt + 1))) w2) of
                              (w3, Inl e) \<Rightarrow> (emit (Print (ERR raw_ticker (arg_year A) q e)) w3, Break)
                            | (w3, Inr _) \<Rightarrow> (w3, Continue))))
              else
                (let w2 = (if arg_save_txt A
                           then save_transcript_txt_from_text txt (stem @ ''.txt'') ticker_dir w1 else w1);
                     w3 = (if arg_save_csv A
                           then save_transcript_csv_from_blocks (speaker_blocks_from_text txt)
                                  (stem @ ''.csv'') ticker_dir w2
                           else w2)
                 in (emit (Print (OK raw_ticker (arg_year A) q)) w3, Break)))
         | (w1, Inl (TranscriptScrapeError msg)) \<Rightarrow>
             (if is_rate_limited_message msg then
                (if attempt \<ge> arg_max_rate_limit_retries A
                 then (w1, Raise (RateLimitReached raw_ticker (arg_year A) q))
                 else (case backoff_delay_s E attempt 15 600 w1 of
                         (w2, Inl e) \<Rightarrow> (w2, Raise e)
                       | (w2, Inr delay) \<Rightarrow>
                           (case time_sleep delay
                                   (emit (Print (RATE_LIMIT raw_ticker (arg_year A) q delay (attempt + 1))) w2) of
                              (w3, Inl e) \<Rightarrow> (w3, Raise e)
                            | (w3, Inr _) \<Rightarrow> (w3, Continue))))
              else (emit (Print (SKIP raw_ticker (arg_year A) q (TranscriptScrapeError msg))) w1, Break))
         | (w1, Inl (RateLimitReached t y q')) \<Rightarrow> (w1, Raise (RateLimitReached t y q'))
         | (w1, Inl e) \<Rightarrow> (emit (Print (ERR raw_ticker (arg_year A) q e)) w1, Break))"

lemma attempt_body_Continue:
  "attempt_body E A raw_ticker q attempt w = (w', Continue) \<Longrightarrow> attempt < arg_max_rate_limit_retries A"
  by (auto simp: attempt_body_def Let_def split: prod.splits sum.splits exn.splits if_splits)

text \<open>The \<open>while True\<close> loop, from a given attempt count.\<close>

function retry_loop :: "env \<Rightarrow> args \<Rightarrow> string \<Rightarrow> int \<Rightarrow> int \<Rightarrow> world \<Rightarrow> world \<times> (exn + unit)" where
  "retry_loop E A raw_ticker q attempt w =
     (case attempt_body E A raw_ticker q attempt w of
        (w', Continue) \<Rightarrow> retry_loop E A raw_ticker q (attempt + 1) w'
      | (w', Break) \<Rightarrow> (w', Inr ())
      | (w', Raise e) \<Rightarrow> (w', Inl e))"
  by pat_completeness auto
termination
  by (relation "measure (\<lambda>(E, A, raw_ticker, q, attempt, w). nat (arg_max_rate_limit_retries A - attempt))")
     (auto dest: attempt_body_Continue[OF sym])

declare retry_loop.simps [simp del]



text \<open>
  The body of the loop over the quarters, for one (ticker, quarter) unit: the \<open>continue\<close>
  of a unit already processed skips the rest of the body.
\<close>

definition process_unit :: "env \<Rightarrow> args \<Rightarrow> string \<Rightarrow> int \<Rightarrow> world \<Rightarrow> world \<times> (exn + unit)" where
  "process_unit E A raw_ticker q w =
     (let ticker_safe = safe_filename raw_ticker;
          ticker_dir = [arg_output_dir A, ticker_safe];
          stem = unit_stem ticker_safe (arg_year A) q
      in if already_processed ticker_dir stem (arg_save_txt A) (arg_save_csv A) w
         then (emit (Print (SKIP_DONE raw_ticker (arg_year A) q)) w, Inr ())
         else (case retry_loop E A raw_ticker q 0 w of
                 (w1, Inl e) \<Rightarrow> (w1, Inl e)
               | (w1, Inr _) \<Rightarrow> sleep_with_jitter E (arg_sleep_s A) (arg_jitter_s A) w1))"

fun quarters_loop :: "env \<Rightarrow> args \<Rightarrow> string \<Rightarrow> int list \<Rightarrow> world \<Rightarrow> world \<times> (exn + unit)" where
  "quarters_loop E A raw_ticker [] w = (w, Inr ())"
| "quarters_loop E A raw_ticker (q # qs) w =
     (case process_unit E A raw_ticker q w of
        (w1, Inl e) \<Rightarrow> (w1, Inl e)
      | (w1, Inr _) \<Rightarrow> quarters_loop E A raw_ticker qs w1)"

fun tickers_loop :: "env \<Rightarrow> args \<Rightarrow> string list \<Rightarrow> world \<Rightarrow> world \<times> (exn + unit)" where
  "tickers_loop E A [] w = (w, Inr ())"
| "tickers_loop E A (raw_ticker # ts) w =
     (case quarters_loop E A raw_ticker (arg_quarters A) w of
        (w1, Inl e) \<Rightarrow> (w1, Inl e)
      | (w1, Inr _) \<Rightarrow> tickers_loop E A ts w1)"

text \<open>
  \<open>fetch_all_transcripts_for_year\<close>: \<open>tickers_csv\<close> is the text of the ticker file, \<open>A\<close> the
  other arguments with the configuration already defaulted. Creating the output
  directories is taken to succeed.
\<close>

definition fetch_all_transcripts_for_year ::
  "env \<Rightarrow> args \<Rightarrow> string option \<Rightarrow> world \<Rightarrow> world \<times> (exn + unit)"
where
  "fetch_all_transcripts_for_year E A tickers_csv w =
     (case read_tickers_from_sandp_csv tickers_csv of
        Inl e \<Rightarrow> (w, Inl e)
      | Inr tickers \<Rightarrow>
          if tickers = [] then (w, Inl (ValueError ''No tickers found''))
          else tickers_loop E A tickers w)"

section \<open>Reading a run of the batch controller\<close>

text \<open>
  The vocabulary the properties of the batch controller are stated in. \<open>unit_lines\<close> reads
  off a trace the units that were ended, in order: each printed line tagged \<open>SKIP-DONE\<close>,
  \<open>OK\<close>, \<open>SKIP\<close> or \<open>ERR\<close> ends one unit. \<open>new_events w w'\<close> is what a step from \<open>w\<close> to
  \<open>w'\<close> added to the trace. \<open>ends_unit t y q evs\<close>: the events \<open>evs\<close> end with the \<open>OK\<close>,
  \<open>SKIP\<close> or \<open>ERR\<close> line of the unit and hold no other ending line. \<open>quiet w w'\<close>: the step
  printed no ending line. \<open>rnd_ok\<close> is the contract of \<open>random.random()\<close>: every draw lies
  in \<open>[0, 1)\<close>. \<open>rate_limited_pass\<close>: the assembly pass that starts in \<open>w\<close> meets the
  rate-limit predicate, in its normalized text or in the message of its scrape error.
\<close>

fun unit_lines :: "event list \<Rightarrow> (string \<times> int) list" where
  "unit_lines [] = []"
| "unit_lines (Print (SKIP_DONE t y q) # es) = (t, q) # unit_lines es"
| "unit_lines (Print (OK t y q) # es) = (t, q) # unit_lines es"
| "unit_lines (Print (SKIP t y q e) # es) = (t, q) # unit_lines es"
| "unit_lines (Print (ERR t y q e) # es) = (t, q) # unit_lines es"
| "unit_lines (_ # es) = unit_lines es"


definition ends_unit :: "string \<Rightarrow> int \<Rightarrow> int \<Rightarrow> event list \<Rightarrow> bool" where
  "ends_unit t y q evs =
     (\<exists>evs' l. evs = evs' @ [Print l] \<and> unit_lines evs' = []
        \<and> (l = OK t y q \<or> (\<exists>e. l = SKIP t y q e) \<or> (\<exists>e. l = ERR t y q e)))"

definition rnd_ok :: "env \<Rightarrow> bool" where
  "rnd_ok E = (\<forall>n. 0 \<le> rnd E n \<and> rnd E n < 1)"

definition rate_limited_pass :: "env \<Rightarrow> args \<Rightarrow> string \<Rightarrow> int \<Rightarrow> world \<Rightarrow> bool" where
  "rate_limited_pass E A raw_ticker q w =
     (case snd (get_transcript_html E (unit_url raw_ticker (arg_year A) q) (Some (arg_cfg A)) w) of
        Inr html \<Rightarrow> is_rate_limited_message (transcript_text_from_html E html)
      | Inl (TranscriptScrapeError msg) \<Rightarrow> is_rate_limited_message msg
      | Inl _ \<Rightarrow> False)"

definition quiet :: "world \<Rightarrow> world \<Rightarrow> bool" where
  "quiet w w' = (\<exists>evs. trace w' = trace w @ evs \<and> unit_lines evs = [])"


text \<open>An environment and arguments for the examples: one ticker file row, one quarter.\<close>

definition env_example :: "response list \<Rightarrow> env" where
  "env_example rs = \<lparr>net = net_of rs, rnd = (\<lambda>n. 1 / 2), html_to_text = (\<lambda>s. s)\<rparr>"

definition args_example :: args where
  "args_example =
     \<lparr>arg_year = 2024, arg_output_dir = ''out'', arg_quarters = [1], arg_save_txt = True,
      arg_save_csv = True, arg_cfg = \<lparr>max_parts = 1, sleep_s = 0\<rparr>, arg_sleep_s = 1,
      arg_jitter_s = 0, arg_max_rate_limit_retries = 1\<rparr>"


definition csv_example :: "string option" where
  "csv_example = Some (''act_symbol,name'' @ [LF] @ ''A,Agilent'' @ [LF])"

text \<open>A world in which both outputs of the unit (\<open>A\<close>, 2024, quarter 1) are on disk.\<close>

definition world_done :: world where
  "world_done = world_init\<lparr>files :=
     (\<lambda>p. None)([''out'', ''A'', ''A_2024_Q1.txt''] \<mapsto> TxtFile ''Hello.'',
              [''out'', ''A'', ''A_2024_Q1.csv''] \<mapsto> CsvFile [])\<rparr>"

section \<open>Properties of the fragment fetcher\<close>

text \<open>
  C3. \<open>_fetch_fragment\<close> classifies every response into one of three outcomes. With
  \<open>body\<close> the response text stripped of surrounding whitespace, as the code names it: a 2xx
  status with a non-empty body that does not hold both the phrase \<open>Page Not Found\<close> and
  the token \<open>404\<close> returns the body; status 404, or a 2xx status with an empty body or a
  body matching the not-found template, returns the absent outcome \<open>None\<close>; any other status
  from 400 up raises a scrape error whose message holds the status code and the resolved URL.
  The three outcomes exclude each other and no response gets anything else. The fetcher makes
  exactly one request whatever the outcome: it does not retry.
\<close>

theorem fetch_fragment_classifies:
  fixes r :: response
  defines "body \<equiv> strip (resp_text r)"
  defines "not_found \<equiv> str_in ''Page Not Found'' body \<and> str_in ''404'' body"
  shows "(200 \<le> status_code r \<and> status_code r < 300 \<and> body \<noteq> [] \<and> \<not> not_found
            \<longrightarrow> fetch_fragment_response r = Inr (Some body))
       \<and> (status_code r = 404
            \<or> (200 \<le> status_code r \<and> status_code r < 300 \<and> (body = [] \<or> not_found))
            \<longrightarrow> fetch_fragment_response r = Inr None)
       \<and> (400 \<le> status_code r \<and> status_code r \<noteq> 404
            \<longrightarrow> fetch_fragment_response r =
                Inl (TranscriptScrapeError (''HTTP '' @ str_int (status_code r) @ '' for '' @ url r)))
       \<and> (fetch_fragment_response r = Inr (Some body)
            \<or> fetch_fragment_response r = Inr None
            \<or> fetch_fragment_response r =
                Inl (TranscriptScrapeError (''HTTP '' @ str_int (status_code r) @ '' for '' @ url r)))
       \<and> (\<forall>E u w. n_req (fst (fetch_fragment E u w)) = Suc (n_req w)
            \<and> trace (fst (fetch_fragment E u w)) = trace w @ [Request u]
            \<and> (net E (n_req w) u = Inr r \<longrightarrow>
                 snd (fetch_fragment E u w) = fetch_fragment_response r))"
  unfolding body_def not_found_def fetch_fragment_response_def fetch_fragment_def http_get_def
    emit_def
  by (auto simp: Let_def split: sum.splits)

theorem fetch_fragment_classifies_witness:
  "fetch_fragment_response \<lparr>status_code = 200, resp_text = '' ok '', url = ''u''\<rparr> = Inr (Some ''ok'')
   \<and> fetch_fragment_response \<lparr>status_code = 404, resp_text = ''ok'', url = ''u''\<rparr> = Inr None
   \<and> fetch_fragment_response \<lparr>status_code = 503, resp_text = ''ok'', url = ''u''\<rparr>
       = Inl (TranscriptScrapeError ''HTTP 503 for u'')"
proof -
  have s: "strip '' ok '' = ''ok''"
    by (simp add: strip_def rstrip_def lstrip_def is_space_def)
  have n: "str_int 503 = ''503''"
    by code_simp
  show ?thesis
    using fetch_fragment_classifies [of "\<lparr>status_code = 200, resp_text = '' ok '', url = ''u''\<rparr>"]
      fetch_fragment_classifies [of "\<lparr>status_code = 404, resp_text = ''ok'', url = ''u''\<rparr>"]
      fetch_fragment_classifies [of "\<lparr>status_code = 503, resp_text = ''ok'', url = ''u''\<rparr>"]
    by (simp add: s n startswith_def)
qed

section \<open>Properties of the fragment assembler\<close>

lemma requests_of_append [simp]: "requests_of (a @ b) = requests_of a @ requests_of b"
  by (induction a rule: requests_of.induct) auto

lemma fetch_fragment_eq:
  "fetch_fragment E u w = (emit (Request u) (w\<lparr>n_req := Suc (n_req w)\<rparr>), fetch_outcome E (n_req w) u)"
  by (simp add: fetch_fragment_def http_get_def fetch_outcome_def split: sum.splits)

lemma fetch_outcome_nonempty: "fetch_outcome E n u = Inr (Some b) \<Longrightarrow> b \<noteq> []"
  by (auto simp: fetch_outcome_def fetch_fragment_response_def Let_def split: sum.splits if_splits)

lemma scan_le: "scan outs fr = (k, r) \<Longrightarrow> k \<le> length outs"
  by (induction outs fr arbitrary: k r rule: scan.induct) (auto split: if_splits prod.splits)

lemma scan_pos: "outs \<noteq> [] \<Longrightarrow> scan outs fr = (k, r) \<Longrightarrow> 0 < k"
  by (cases "(outs, fr)" rule: scan.cases) (auto split: if_splits prod.splits)

lemma scan_result: "scan outs fr = (k, Inr fs) \<Longrightarrow> fs = fr @ contents (take k outs)"
  by (induction outs fr arbitrary: k rule: scan.induct) (auto split: if_splits prod.splits)

lemma scan_error: "scan outs fr = (k, Inl e) \<Longrightarrow> 0 < k \<and> outs ! (k - 1) = Inl e"
  by (induction outs fr arbitrary: k rule: scan.induct) (auto split: if_splits prod.splits simp: nth_Cons')

lemma scan_error_stop:
  "scan outs fr = (k, r) \<Longrightarrow> p < k \<Longrightarrow> outs ! p = Inl e \<Longrightarrow> k = Suc p \<and> r = Inl e"
proof (induction outs fr arbitrary: k p rule: scan.induct)
  case (1 fr)
  then show ?case by simp
next
  case (2 e' os fr)
  then show ?case by (cases p) auto
next
  case (3 os fr)
  show ?case
  proof (cases "fr \<noteq> []")
    case True
    with 3(2-) show ?thesis by (cases p) auto
  next
    case False
    then obtain k' where k': "scan os fr = (k', r)" "k = Suc k'"
      using 3(2) by (auto split: prod.splits)
    show ?thesis
    proof (cases p)
      case 0
      with 3(4) show ?thesis by simp
    next
      case (Suc p')
      with 3(1)[OF _ k'(1), of p'] 3(3,4) False k' show ?thesis by auto
    qed
  qed
next
  case (4 b os fr)
  obtain k' where k': "scan os (fr @ [b]) = (k', r)" "k = Suc k'"
    using 4(2) by (auto split: prod.splits)
  show ?case
  proof (cases p)
    case 0
    with 4(4) show ?thesis by simp
  next
    case (Suc p')
    with 4(1)[OF k'(1), of p'] 4(3,4) k' show ?thesis by auto
  qed
qed

lemma scan_stop:
  "scan outs fr = (k, r) \<Longrightarrow> p < k \<Longrightarrow> outs ! p = Inr None \<Longrightarrow>
   fr \<noteq> [] \<or> (\<exists>i<p. is_content (outs ! i)) \<Longrightarrow> k = Suc p"
proof (induction outs fr arbitrary: k p rule: scan.induct)
  case (1 fr)
  then show ?case by simp
next
  case (2 e os fr)
  then show ?case by (cases p) auto
next
  case (3 os fr)
  show ?case
  proof (cases "fr \<noteq> []")
    case True
    with 3 show ?thesis by auto
  next
    case False
    then obtain k' where k': "scan os fr = (k', r)" "k = Suc k'"
      using 3(2) by (auto split: prod.splits)
    show ?thesis
    proof (cases p)
      case 0
      with 3(5) False show ?thesis by simp
    next
      case (Suc p')
      have "\<exists>i<p'. is_content (os ! i)"
        using 3(5) False Suc by (auto simp: Ex_less_Suc2 is_content_def)
      with 3(1)[OF _ k'(1), of p'] 3(3,4) False Suc k' show ?thesis by auto
    qed
  qed
next
  case (4 b os fr)
  obtain k' where k': "scan os (fr @ [b]) = (k', r)" "k = Suc k'"
    using 4(2) by (auto split: prod.splits)
  show ?case
  proof (cases p)
    case 0
    with 4 show ?thesis by simp
  next
    case (Suc p')
    with 4(1)[OF k'(1), of p'] 4(3,4) k' show ?thesis by auto
  qed
qed

lemma scan_skip:
  "scan outs [] = (k, r) \<Longrightarrow> p < k \<Longrightarrow> outs ! p = Inr None \<Longrightarrow>
   \<forall>i<p. \<not> is_content (outs ! i) \<Longrightarrow> Suc p < length outs \<Longrightarrow> Suc p < k"
proof (induction outs arbitrary: k p)
  case Nil
  then show ?case by simp
next
  case (Cons x os)
  show ?case
  proof (cases p)
    case 0
    with Cons(2-) obtain k' where "scan os [] = (k', r)" "k = Suc k'"
      by (auto split: prod.splits)
    moreover from Cons(6) 0 have "os \<noteq> []" by auto
    ultimately show ?thesis using 0 scan_pos by auto
  next
    case (Suc p')
    from Cons(5) Suc have nc: "\<not> is_content x" by auto
    show ?thesis
    proof (cases x)
      case (Inl e)
      with Cons(2,3) Suc show ?thesis by auto
    next
      case (Inr v)
      with nc have x: "x = Inr None" by (cases v) (auto simp: is_content_def)
      then obtain k' where k': "scan os [] = (k', r)" "k = Suc k'"
        using Cons(2) by (auto split: prod.splits)
      from Cons(1)[OF k'(1), of p'] Cons(3-) Suc k' show ?thesis by (auto simp: All_less_Suc2)
    qed
  qed
qed

lemma scan_early:
  "scan outs fr = (k, r) \<Longrightarrow> k < length outs \<Longrightarrow>
   0 < k \<and> (isl (outs ! (k - 1)) \<or>
     (outs ! (k - 1) = Inr None \<and> (fr \<noteq> [] \<or> (\<exists>i<k - 1. is_content (outs ! i)))))"
proof (induction outs fr arbitrary: k rule: scan.induct)
  case (1 fr)
  then show ?case by simp
next
  case (2 e os fr)
  then show ?case by auto
next
  case (3 os fr)
  show ?case
  proof (cases "fr \<noteq> []")
    case True
    with 3 show ?thesis by auto
  next
    case False
    then obtain k' where k': "scan os fr = (k', r)" "k = Suc k'"
      using 3(2) by (auto split: prod.splits)
    with 3(3) have "k' < length os" by simp
    from 3(1)[OF _ k'(1) this] False obtain
      pos: "0 < k'" and d: "isl (os ! (k' - 1)) \<or> (os ! (k' - 1) = Inr None \<and> (\<exists>i<k' - 1. is_content (os ! i)))"
      by auto
    from pos obtain j where j: "k' = Suc j" by (cases k') auto
    from d j have "isl (os ! j) \<or> (os ! j = Inr None \<and> (\<exists>i<Suc j. is_content ((Inr None # os) ! i)))"
      by (auto simp: Ex_less_Suc2)
    with k' j show ?thesis by auto
  qed
next
  case (4 b os fr)
  obtain k' where k': "scan os (fr @ [b]) = (k', r)" "k = Suc k'"
    using 4(2) by (auto split: prod.splits)
  with 4(3) have "k' < length os" by simp
  from 4(1)[OF k'(1) this] obtain
    pos: "0 < k'" and d: "isl (os ! (k' - 1)) \<or> os ! (k' - 1) = Inr None"
    by auto
  from pos obtain j where j: "k' = Suc j" by (cases k') auto
  have "is_content ((Inr (Some b) # os) ! 0)" by (simp add: is_content_def)
  then have "\<exists>i<Suc j. is_content ((Inr (Some b) # os) ! i)" by blast
  with d k' j show ?case by auto
qed

lemma parts_loop_scan:
  assumes "0 \<le> sleep_s cfg"
    and "parts_loop E base_url cfg is frags w = (w', res)"
  shows "\<exists>k. scan (outcomes E (n_req w) base_url is) frags = (k, res)
            \<and> n_req w' = n_req w + k
            \<and> requests_of (trace w') = requests_of (trace w) @ map (\<lambda>i. base_url @ str_int i @ ''/'') (take k is)"
  using assms(2)
proof (induction "is" arbitrary: frags w)
  case Nil
  then show ?case by simp
next
  case (Cons i "is")
  let ?u = "base_url @ str_int i @ ''/''"
  let ?w1 = "emit (Request ?u) (w\<lparr>n_req := Suc (n_req w)\<rparr>)"
  have w1: "n_req ?w1 = Suc (n_req w)" "requests_of (trace ?w1) = requests_of (trace w) @ [?u]"
    by (simp_all add: emit_def)
  show ?case
  proof (cases "fetch_outcome E (n_req w) ?u")
    case (Inl e)
    with Cons.prems w1 show ?thesis
      by (simp add: fetch_fragment_eq)
  next
    case (Inr v)
    show ?thesis
    proof (cases v)
      case None
      show ?thesis
      proof (cases "frags = []")
        case True
        with Cons.prems Inr None have "parts_loop E base_url cfg is [] ?w1 = (w', res)"
          by (simp add: fetch_fragment_eq)
        from Cons.IH[OF this] w1 Inr None True show ?thesis
          by auto
      next
        case False
        with Cons.prems Inr None w1 show ?thesis
          by (simp add: fetch_fragment_eq)
      qed
    next
      case (Some b)
      let ?w2 = "if sleep_s cfg \<noteq> 0 then emit (Sleep (sleep_s cfg)) ?w1 else ?w1"
      have w2: "n_req ?w2 = Suc (n_req w)" "requests_of (trace ?w2) = requests_of (trace w) @ [?u]"
        by (simp_all add: emit_def)
      from Cons.prems Inr Some assms(1) have "parts_loop E base_url cfg is (frags @ [b]) ?w2 = (w', res)"
        by (simp add: fetch_fragment_eq time_sleep_def split: if_splits)
      from Cons.IH[OF this] w2 Inr Some show ?thesis
        by auto
    qed
  qed
qed

lemma outcomes_length [simp]: "length (outcomes E n base_url is) = length is"
  by (induction "is" arbitrary: n) auto

lemma outcomes_nth:
  "p < length is \<Longrightarrow>
   outcomes E n base_url is ! p = fetch_outcome E (n + p) (base_url @ str_int (is ! p) @ ''/'')"
  by (induction "is" arbitrary: n p) (auto simp: nth_Cons split: nat.splits)

lemma all_outcomes_length [simp]: "length (all_outcomes E w base_url M) = Suc (nat M)"
  by (simp add: all_outcomes_def)

lemma all_outcomes_nth:
  "j \<le> nat M \<Longrightarrow> all_outcomes E w base_url M ! j = outcome_at E w base_url j"
  by (cases j) (auto simp: all_outcomes_def outcome_at_def fragment_url_def outcomes_nth)

lemma all_outcomes_take:
  "k \<le> Suc (nat M) \<Longrightarrow> take k (all_outcomes E w base_url M) = map (outcome_at E w base_url) [0..<k]"
  by (rule nth_equalityI) (auto simp: all_outcomes_nth)

lemma part_urls_take:
  "k \<le> nat M \<Longrightarrow>
   base_url # map (\<lambda>i. base_url @ str_int i @ ''/'') (take k [1..M]) = map (fragment_url base_url) [0..<Suc k]"
  by (rule nth_equalityI) (auto simp: nth_Cons fragment_url_def add.commute simp del: upt_Suc split: nat.splits)

lemma get_transcript_html_scan:
  fixes cfg0 :: "ScrapeConfig option" and base_url0 :: string
  defines "cfg \<equiv> (case cfg0 of None \<Rightarrow> ScrapeConfig_default | Some c \<Rightarrow> c)"
  defines "base_url \<equiv> (if endswith base_url0 ''/'' then base_url0 else base_url0 @ ''/'')"
  assumes "0 \<le> sleep_s cfg"
    and "get_transcript_html E base_url0 cfg0 w = (w', res)"
  shows "\<exists>k r. scan (all_outcomes E w base_url (max_parts cfg)) [] = (k, r)
            \<and> n_req w' = n_req w + k
            \<and> requests_of (trace w') = requests_of (trace w) @ map (fragment_url base_url) [0..<k]
            \<and> res = (case r of Inl e \<Rightarrow> Inl e
                       | Inr frags \<Rightarrow> if frags = [] then Inl (TranscriptScrapeError no_fragments_message)
                                       else Inr (join [LF] frags))"
proof -
  let ?w1 = "emit (Request base_url) (w\<lparr>n_req := Suc (n_req w)\<rparr>)"
  let ?M = "max_parts cfg"
  have w1: "n_req ?w1 = Suc (n_req w)" "requests_of (trace ?w1) = requests_of (trace w) @ [base_url]"
    by (simp_all add: emit_def)
  have u0: "map (fragment_url base_url) [0..<Suc 0] = [base_url]"
    by (simp add: fragment_url_def)
  show ?thesis
  proof (cases "fetch_outcome E (n_req w) base_url")
    case (Inl e)
    with assms(4) w1 u0 show ?thesis
      unfolding get_transcript_html_def all_outcomes_def Let_def cfg_def[symmetric] base_url_def[symmetric]
      by (auto simp: fetch_fragment_eq)
  next
    case (Inr first)
    define frags0 where "frags0 = (case first of None \<Rightarrow> [] | Some b \<Rightarrow> if b \<noteq> [] then [b] else [])"
    obtain w2 r where pl: "parts_loop E base_url cfg [1..?M] frags0 ?w1 = (w2, r)"
      by (cases "parts_loop E base_url cfg [1..?M] frags0 ?w1") auto
    from parts_loop_scan[OF assms(3) pl] w1 obtain k where
      k: "scan (outcomes E (Suc (n_req w)) base_url [1..?M]) frags0 = (k, r)"
         "n_req w2 = Suc (n_req w) + k"
         "requests_of (trace w2) = requests_of (trace w) @ [base_url] @ map (\<lambda>i. base_url @ str_int i @ ''/'') (take k [1..?M])"
      by auto
    from scan_le[OF k(1)] have kle: "k \<le> nat ?M" by simp
    have res: "w' = w2" "res = (case r of Inl e \<Rightarrow> Inl e
                       | Inr frags \<Rightarrow> if frags = [] then Inl (TranscriptScrapeError no_fragments_message)
                                       else Inr (join [LF] frags))"
      using assms(4) Inr pl
      unfolding get_transcript_html_def Let_def cfg_def[symmetric] base_url_def[symmetric] frags0_def[symmetric]
      by (auto simp: fetch_fragment_eq frags0_def split: sum.splits if_splits)
    have sc: "scan (all_outcomes E w base_url ?M) [] = (Suc k, r)"
    proof (cases first)
      case None
      with Inr k(1) show ?thesis by (simp add: all_outcomes_def frags0_def)
    next
      case (Some b)
      with Inr have "b \<noteq> []" using fetch_outcome_nonempty by blast
      with Some Inr k(1) show ?thesis by (simp add: all_outcomes_def frags0_def)
    qed
    have "requests_of (trace w2) = requests_of (trace w) @ map (fragment_url base_url) [0..<Suc k]"
      using k(3) part_urls_take[OF kle, of base_url] by simp
    with sc k(2) res show ?thesis by auto
  qed
qed


lemma page_outcome:
  "fetch_fragment_response (page ''a'') = Inr (Some ''a'')"
  by (simp add: fetch_fragment_response_def page_def strip_def lstrip_def rstrip_def is_space_def
      startswith_def)

text \<open>
  C1 fails as stated: it is claimed for every configuration, and a configuration with a
  negative inter-request sleep raises. With content at indices 0, 1 and 2, index 3 absent and
  \<open>sleep_s = -1\<close>, the sleep that follows the first numbered fragment raises \<open>ValueError\<close>:
  two requests are made and no document is returned.
\<close>

theorem get_transcript_html_negative_sleep_counterexample:
  "outcome_at (env_pages [page ''a'', page ''a'', page ''a'']) world_init ''u/'' 0 = Inr (Some ''a'')
   \<and> outcome_at (env_pages [page ''a'', page ''a'', page ''a'']) world_init ''u/'' 1 = Inr (Some ''a'')
   \<and> outcome_at (env_pages [page ''a'', page ''a'', page ''a'']) world_init ''u/'' 2 = Inr (Some ''a'')
   \<and> outcome_at (env_pages [page ''a'', page ''a'', page ''a'']) world_init ''u/'' 3 = Inr None
   \<and> snd (get_transcript_html (env_pages [page ''a'', page ''a'', page ''a'']) ''u''
             (Some \<lparr>max_parts = 5, sleep_s = - 1\<rparr>) world_init)
       = Inl (ValueError ''sleep length must be non-negative'')
   \<and> n_req (fst (get_transcript_html (env_pages [page ''a'', page ''a'', page ''a'']) ''u''
             (Some \<lparr>max_parts = 5, sleep_s = - 1\<rparr>) world_init)) = 2"
proof -
  let ?E = "env_pages [page ''a'', page ''a'', page ''a'']"
  have o: "outcome_at ?E world_init ''u/'' 0 = Inr (Some ''a'')"
    "outcome_at ?E world_init ''u/'' 1 = Inr (Some ''a'')"
    "outcome_at ?E world_init ''u/'' 2 = Inr (Some ''a'')"
    by (simp_all add: outcome_at_def fetch_outcome_def env_pages_def net_of_def world_init_def
        page_outcome)
  have o3: "outcome_at ?E world_init ''u/'' 3 = Inr None"
    by (simp add: outcome_at_def fetch_outcome_def env_pages_def net_of_def world_init_def
        fetch_fragment_response_def)
  have f: "fetch_outcome ?E 0 u = Inr (Some ''a'')" "fetch_outcome ?E (Suc 0) u = Inr (Some ''a'')" for u
    by (simp_all add: fetch_outcome_def env_pages_def net_of_def page_outcome)
  have l: "[1..5] = 1 # [2..5]"
    by (simp add: upto_rec1)
  have "snd (get_transcript_html ?E ''u'' (Some \<lparr>max_parts = 5, sleep_s = - 1\<rparr>) world_init)
          = Inl (ValueError ''sleep length must be non-negative'')
      \<and> n_req (fst (get_transcript_html ?E ''u'' (Some \<lparr>max_parts = 5, sleep_s = - 1\<rparr>) world_init)) = 2"
    by (simp add: get_transcript_html_def endswith_def fetch_fragment_eq f l time_sleep_def
        world_init_def emit_def)
  with o o3 show ?thesis
    by simp
qed

text \<open>
  C1, amended to the configurations with a non-negative inter-request sleep, for every
  network. With \<open>k\<close> the number of requests the call makes and \<open>out j\<close> the
  outcome of index \<open>j\<close> (0 the base fragment): the requests are the base fragment and then the
  numbered indices in increasing order, at most \<open>max_parts\<close> of them; an absent numbered index
  after which some fragment has been collected is the last index requested; an absent index
  with nothing collected so far is followed by a request for the next index, when there is
  one within \<open>max_parts\<close>; the scan ends before \<open>max_parts\<close> only on an error or on such an
  absence; a returned document is the collected bodies in index order joined with a line
  feed. In particular, with content at 0, 1, 2 and index 3 absent (and \<open>max_parts\<close> at least 2)
  the result is the three bodies joined and no index past 3 is requested; with index 0 absent
  and index 1 present, index 1 is requested and its body opens the document. The result is
  fixed by the outcomes: an index whose fetch raises is the last one requested and the call
  raises that error; when the last fetch did not raise, the call returns the collected
  bodies joined with a line feed, or raises the scrape error of the empty result when
  nothing was collected.
\<close>

theorem get_transcript_html_assembly:
  fixes cfg0 :: "ScrapeConfig option" and base_url0 :: string and E :: env and w :: world
  defines "cfg \<equiv> (case cfg0 of None \<Rightarrow> ScrapeConfig_default | Some c \<Rightarrow> c)"
  defines "base_url \<equiv> (if endswith base_url0 ''/'' then base_url0 else base_url0 @ ''/'')"
  defines "w' \<equiv> fst (get_transcript_html E base_url0 cfg0 w)"
  defines "res \<equiv> snd (get_transcript_html E base_url0 cfg0 w)"
  defines "k \<equiv> n_req w' - n_req w"
  defines "out \<equiv> outcome_at E w base_url"
  assumes sleep: "0 \<le> sleep_s cfg"
  shows "n_req w' = n_req w + k \<and> 1 \<le> k \<and> k \<le> Suc (nat (max_parts cfg))
       \<and> requests_of (trace w') = requests_of (trace w) @ map (fragment_url base_url) [0..<k]
       \<and> (\<forall>j. 1 \<le> j \<and> j < k \<and> out j = Inr None \<and> (\<exists>i<j. is_content (out i)) \<longrightarrow> k = Suc j)
       \<and> (\<forall>j. j < k \<and> int j < max_parts cfg \<and> out j = Inr None \<and> (\<forall>i<j. \<not> is_content (out i))
              \<longrightarrow> Suc j < k)
       \<and> (k < Suc (nat (max_parts cfg)) \<longrightarrow>
             isl (out (k - 1)) \<or> (out (k - 1) = Inr None \<and> (\<exists>i<k - 1. is_content (out i))))
       \<and> (\<forall>s. res = Inr s \<longrightarrow> s = join [LF] (contents (map out [0..<k])))
       \<and> (\<forall>f0 f1 f2. 2 \<le> max_parts cfg \<and> out 0 = Inr (Some f0) \<and> out 1 = Inr (Some f1)
              \<and> out 2 = Inr (Some f2) \<and> out 3 = Inr None
              \<longrightarrow> res = Inr (join [LF] [f0, f1, f2]) \<and> k = min 4 (Suc (nat (max_parts cfg))))
       \<and> (\<forall>f1. 1 \<le> max_parts cfg \<and> out 0 = Inr None \<and> out 1 = Inr (Some f1)
              \<longrightarrow> 2 \<le> k \<and> (\<forall>s. res = Inr s \<longrightarrow> (\<exists>rest. s = join [LF] (f1 # rest))))
       \<and> (\<forall>j e. j < k \<and> out j = Inl e \<longrightarrow> k = Suc j \<and> res = Inl e)
       \<and> (\<not> isl (out (k - 1)) \<longrightarrow>
             res = (if contents (map out [0..<k]) = []
                    then Inl (TranscriptScrapeError no_fragments_message)
                    else Inr (join [LF] (contents (map out [0..<k])))))"
proof -
  let ?M = "max_parts cfg"
  let ?all = "all_outcomes E w base_url ?M"
  have run: "get_transcript_html E base_url0 cfg0 w = (w', res)"
    by (simp add: w'_def res_def)
  from get_transcript_html_scan[OF sleep[unfolded cfg_def] run]
  obtain k0 r where sc: "scan ?all [] = (k0, r)"
    and nk: "n_req w' = n_req w + k0"
    and rq: "requests_of (trace w') = requests_of (trace w) @ map (fragment_url base_url) [0..<k0]"
    and rs: "res = (case r of Inl e \<Rightarrow> Inl e
                       | Inr frags \<Rightarrow> if frags = [] then Inl (TranscriptScrapeError no_fragments_message)
                                       else Inr (join [LF] frags))"
    unfolding cfg_def base_url_def by blast
  have k: "k0 = k" using nk by (simp add: k_def)
  have kpos: "0 < k" using scan_pos[OF _ sc] k by (simp add: all_outcomes_def)
  have kle: "k \<le> Suc (nat ?M)" using scan_le[OF sc] k by simp
  have nth: "\<And>j. j < k \<Longrightarrow> ?all ! j = out j"
    using kle by (simp add: all_outcomes_nth out_def)
  have nth': "\<And>j. j \<le> nat ?M \<Longrightarrow> ?all ! j = out j"
    by (simp add: all_outcomes_nth out_def)
  have c1: "n_req w' = n_req w + k \<and> 1 \<le> k \<and> k \<le> Suc (nat ?M)"
    using nk k kpos kle by simp
  have c2: "requests_of (trace w') = requests_of (trace w) @ map (fragment_url base_url) [0..<k]"
    using rq k by simp
  have stop: "k = Suc j" if "j < k" "out j = Inr None" "\<exists>i<j. is_content (out i)" for j
  proof -
    from that(3) obtain i where "i < j" "is_content (out i)" by blast
    with that(1) have "\<exists>i<j. is_content (?all ! i)" using nth[of i] by auto
    with scan_stop[OF sc, of j] that(1,2) nth[of j] k show ?thesis by simp
  qed
  have skip: "Suc j < k" if "j < k" "int j < ?M" "out j = Inr None" "\<forall>i<j. \<not> is_content (out i)" for j
  proof -
    have "\<forall>i<j. \<not> is_content (?all ! i)" using that(1,4) nth by auto
    moreover have "Suc j < length ?all" using that(2) by simp
    ultimately show ?thesis using scan_skip[OF sc, of j] that(1,3) nth[of j] k by simp
  qed
  have early: "isl (out (k - 1)) \<or> (out (k - 1) = Inr None \<and> (\<exists>i<k - 1. is_content (out i)))"
    if "k < Suc (nat ?M)"
  proof -
    from scan_early[OF sc] that k have
      d: "isl (?all ! (k - 1)) \<or> (?all ! (k - 1) = Inr None \<and> (\<exists>i<k - 1. is_content (?all ! i)))"
      by simp
    have "\<And>i. i < k - 1 \<Longrightarrow> ?all ! i = out i" using nth by simp
    with d nth[of "k - 1"] kpos show ?thesis by auto
  qed
  have frs: "fs = contents (map out [0..<k])" if "r = Inr fs" for fs
    using scan_result[of ?all "[]" k fs] sc k that all_outcomes_take[OF kle, of E w base_url]
    by (simp add: out_def)
  have joined: "s = join [LF] (contents (map out [0..<k]))" if "res = Inr s" for s
  proof (cases r)
    case (Inl e)
    with rs that show ?thesis by simp
  next
    case (Inr fs)
    with rs that frs[OF Inr] show ?thesis by (simp split: if_splits)
  qed
  have ex1: "res = Inr (join [LF] [f0, f1, f2]) \<and> k = min 4 (Suc (nat ?M))"
    if h: "2 \<le> ?M" "out 0 = Inr (Some f0)" "out 1 = Inr (Some f1)" "out 2 = Inr (Some f2)"
      "out 3 = Inr None" for f0 f1 f2
  proof -
    have cont: "is_content (out 0)" using h(2) by (simp add: is_content_def)
    have k4: "k \<le> 4"
    proof (rule ccontr)
      assume "\<not> k \<le> 4"
      then have "3 < k" by simp
      moreover from cont have "\<exists>i<3. is_content (out i)" by (intro exI[of _ 0]) simp
      ultimately have "k = 4" using stop[of 3] h(5) by simp
      with \<open>\<not> k \<le> 4\<close> show False by simp
    qed
    have k3: "k = 4 \<or> k = Suc (nat ?M)"
    proof (rule ccontr)
      assume a: "\<not> (k = 4 \<or> k = Suc (nat ?M))"
      with kle have lt: "k < Suc (nat ?M)" by simp
      from a k4 kpos have "k - 1 = 0 \<or> k - 1 = 1 \<or> k - 1 = 2" by arith
      with early[OF lt] h(2,3,4) show False by auto
    qed
    have kval: "k = min 4 (Suc (nat ?M))"
      using k3 k4 kle by auto
    have k23: "k = 3 \<or> k = 4" using kval h(1) by (auto simp: min_def)
    have cs: "contents (map out [0..<k]) = [f0, f1, f2]"
    proof -
      have l3: "[0..<3] = [0::nat, 1, 2]" and l4: "[0..<4] = [0::nat, 1, 2, 3]"
        by code_simp+
      from k23 h(2-5) show ?thesis
        by (auto simp: l3 l4)
    qed
    have "res = Inr (join [LF] [f0, f1, f2])"
    proof (cases r)
      case (Inl e)
      from scan_error[of ?all "[]" k e] sc k Inl have "?all ! (k - 1) = Inl e" by simp
      with nth[of "k - 1"] kpos have "out (k - 1) = Inl e" by simp
      with k23 h(4,5) show ?thesis by auto
    next
      case (Inr fs)
      with frs[OF Inr] cs rs show ?thesis by simp
    qed
    with kval show ?thesis by simp
  qed
  have ex2: "2 \<le> k \<and> (\<forall>s. res = Inr s \<longrightarrow> (\<exists>rest. s = join [LF] (f1 # rest)))"
    if h: "1 \<le> ?M" "out 0 = Inr None" "out 1 = Inr (Some f1)" for f1
  proof -
    from skip[of 0] kpos h(1,2) have k2: "2 \<le> k" by simp
    then obtain m where m: "k = Suc (Suc m)" by (cases k; cases "k - 1") auto
    have "[0..<k] = 0 # Suc 0 # [Suc (Suc 0)..<k]"
      using k2 by (simp add: upt_conv_Cons)
    then have "contents (map out [0..<k]) = f1 # contents (map out [Suc (Suc 0)..<k])"
      using h(2,3) by simp
    with joined k2 show ?thesis by auto
  qed
  have s3: "\<forall>j. 1 \<le> j \<and> j < k \<and> out j = Inr None \<and> (\<exists>i<j. is_content (out i)) \<longrightarrow> k = Suc j"
    using stop by blast
  have s4: "\<forall>j. j < k \<and> int j < ?M \<and> out j = Inr None \<and> (\<forall>i<j. \<not> is_content (out i)) \<longrightarrow> Suc j < k"
    using skip by blast
  have s5: "k < Suc (nat ?M) \<longrightarrow>
             isl (out (k - 1)) \<or> (out (k - 1) = Inr None \<and> (\<exists>i<k - 1. is_content (out i)))"
    using early by blast
  have s6: "\<forall>s. res = Inr s \<longrightarrow> s = join [LF] (contents (map out [0..<k]))"
    using joined by blast
  have s7: "\<forall>f0 f1 f2. 2 \<le> ?M \<and> out 0 = Inr (Some f0) \<and> out 1 = Inr (Some f1)
              \<and> out 2 = Inr (Some f2) \<and> out 3 = Inr None
              \<longrightarrow> res = Inr (join [LF] [f0, f1, f2]) \<and> k = min 4 (Suc (nat ?M))"
    using ex1 by blast
  have s8: "\<forall>f1. 1 \<le> ?M \<and> out 0 = Inr None \<and> out 1 = Inr (Some f1)
              \<longrightarrow> 2 \<le> k \<and> (\<forall>s. res = Inr s \<longrightarrow> (\<exists>rest. s = join [LF] (f1 # rest)))"
    using ex2 by blast
  have raised: "k = Suc j \<and> res = Inl e" if "j < k" "out j = Inl e" for j e
  proof -
    from scan_error_stop[OF sc, of j e] that nth[of j] k have "k = Suc j" "r = Inl e" by simp_all
    with rs show ?thesis by simp
  qed
  have s9: "\<forall>j e. j < k \<and> out j = Inl e \<longrightarrow> k = Suc j \<and> res = Inl e"
    using raised by blast
  have s10: "\<not> isl (out (k - 1)) \<longrightarrow>
             res = (if contents (map out [0..<k]) = []
                    then Inl (TranscriptScrapeError no_fragments_message)
                    else Inr (join [LF] (contents (map out [0..<k]))))"
  proof (cases r)
    case (Inl e)
    from scan_error[of ?all "[]" k e] sc k Inl have "?all ! (k - 1) = Inl e" by simp
    with nth[of "k - 1"] kpos have "out (k - 1) = Inl e" by simp
    then show ?thesis by simp
  next
    case (Inr fs)
    with frs[OF Inr] rs show ?thesis by simp
  qed
  from c1 c2 s3 s4 s5 s6 s7 s8 s9 s10 show ?thesis
    by (intro conjI) (erule conjunct1 conjunct2 | assumption | (drule conjunct2, erule conjunct1) | (drule conjunct2, erule conjunct2))+
qed

theorem get_transcript_html_assembly_witness:
  "snd (get_transcript_html \<lparr>net = net_of [page ''a'', page ''a'', page ''a''], rnd = (\<lambda>n. 0),
          html_to_text = (\<lambda>s. s)\<rparr> ''u'' None world_init) = Inr (''a'' @ [LF] @ ''a'' @ [LF] @ ''a'')
   \<and> n_req (fst (get_transcript_html \<lparr>net = net_of [page ''a'', page ''a'', page ''a''], rnd = (\<lambda>n. 0),
          html_to_text = (\<lambda>s. s)\<rparr> ''u'' None world_init)) = 4"
proof -
  let ?E = "\<lparr>net = net_of [page ''a'', page ''a'', page ''a''], rnd = (\<lambda>n. 0), html_to_text = (\<lambda>s. s)\<rparr>"
  let ?run = "get_transcript_html ?E ''u'' None world_init"
  have b: "(if endswith ''u'' ''/'' then ''u'' else ''u'' @ ''/'') = ''u/''"
    by (simp add: endswith_def)
  have o: "outcome_at ?E world_init ''u/'' 0 = Inr (Some ''a'')"
    "outcome_at ?E world_init ''u/'' 1 = Inr (Some ''a'')"
    "outcome_at ?E world_init ''u/'' 2 = Inr (Some ''a'')"
    by (simp_all add: outcome_at_def fetch_outcome_def net_of_def world_init_def page_outcome)
  have o3: "outcome_at ?E world_init ''u/'' 3 = Inr None"
    by (simp add: outcome_at_def fetch_outcome_def net_of_def world_init_def
        fetch_fragment_response_def)
  have s: "0 \<le> sleep_s (case None of None \<Rightarrow> ScrapeConfig_default | Some c \<Rightarrow> c)"
    by (simp add: ScrapeConfig_default_def)
  note t = get_transcript_html_assembly[OF s, of ?E "''u''" world_init, unfolded b]
  have m: "(2::int) \<le> max_parts (case None of None \<Rightarrow> ScrapeConfig_default | Some c \<Rightarrow> c)"
    by (simp add: ScrapeConfig_default_def)
  from t have n: "n_req (fst ?run) = n_req world_init + (n_req (fst ?run) - n_req world_init)"
    by (rule conjunct1)
  from t have "\<forall>f0 f1 f2. 2 \<le> max_parts (case None of None \<Rightarrow> ScrapeConfig_default | Some c \<Rightarrow> c)
      \<and> outcome_at ?E world_init ''u/'' 0 = Inr (Some f0)
      \<and> outcome_at ?E world_init ''u/'' 1 = Inr (Some f1)
      \<and> outcome_at ?E world_init ''u/'' 2 = Inr (Some f2)
      \<and> outcome_at ?E world_init ''u/'' 3 = Inr None
      \<longrightarrow> snd ?run = Inr (join [LF] [f0, f1, f2])
        \<and> n_req (fst ?run) - n_req world_init
            = min 4 (Suc (nat (max_parts (case None of None \<Rightarrow> ScrapeConfig_default | Some c \<Rightarrow> c))))"
    by (elim conjE)
  with m o o3 have r: "snd ?run = Inr (join [LF] [''a'', ''a'', ''a''])"
    and k: "n_req (fst ?run) - n_req world_init
            = min 4 (Suc (nat (max_parts (case None of None \<Rightarrow> ScrapeConfig_default | Some c \<Rightarrow> c))))"
    by blast+
  from k have "n_req (fst ?run) - n_req world_init = 4"
    by (simp add: ScrapeConfig_default_def)
  with n have "n_req (fst ?run) = 4"
    by (simp add: world_init_def)
  with r show ?thesis by simp
qed

lemma parts_loop_no_content:
  assumes "\<forall>x \<in> set (outcomes E (n_req w) base_url is). \<not> is_content x"
    and "parts_loop E base_url cfg is [] w = (w', res)"
  shows "(\<forall>fs. res = Inr fs \<longrightarrow> fs = [])
       \<and> ((\<forall>x \<in> set (outcomes E (n_req w) base_url is). x = Inr None)
            \<longrightarrow> res = Inr [] \<and> n_req w' = n_req w + length is)"
  using assms
proof (induction "is" arbitrary: w)
  case Nil
  then show ?case by auto
next
  case (Cons i "is")
  let ?u = "base_url @ str_int i @ ''/''"
  let ?w1 = "emit (Request ?u) (w\<lparr>n_req := Suc (n_req w)\<rparr>)"
  have w1: "n_req ?w1 = Suc (n_req w)"
    by (simp add: emit_def)
  show ?case
  proof (cases "fetch_outcome E (n_req w) ?u")
    case (Inl e)
    with Cons.prems show ?thesis
      by (auto simp: fetch_fragment_eq is_content_def)
  next
    case (Inr v)
    with Cons.prems(1) have v: "v = None"
      by (cases v) (auto simp: is_content_def)
    with Cons.prems Inr have pl: "parts_loop E base_url cfg is [] ?w1 = (w', res)"
      by (simp add: fetch_fragment_eq)
    from Cons.prems(1) w1 have nc: "\<forall>x \<in> set (outcomes E (n_req ?w1) base_url is). \<not> is_content x"
      by simp
    have "(\<forall>fs. res = Inr fs \<longrightarrow> fs = [])
       \<and> ((\<forall>x \<in> set (outcomes E (n_req ?w1) base_url is). x = Inr None)
            \<longrightarrow> res = Inr [] \<and> n_req w' = n_req ?w1 + length is)"
      by (rule Cons.IH[OF nc pl])
    with w1 Inr v show ?thesis by simp
  qed
qed

text \<open>
  C4. When no fetch of an assembly pass yields content, \<open>get_transcript_html\<close> raises: it
  never returns a document. When every index, base and numbered, is absent, all
  \<open>max_parts + 1\<close> indices are tried and the error raised is the scrape error with the
  "no transcript fragments retrieved" message.
\<close>

theorem get_transcript_html_no_content:
  fixes cfg0 :: "ScrapeConfig option" and base_url0 :: string and E :: env and w :: world
  defines "cfg \<equiv> (case cfg0 of None \<Rightarrow> ScrapeConfig_default | Some c \<Rightarrow> c)"
  defines "base_url \<equiv> (if endswith base_url0 ''/'' then base_url0 else base_url0 @ ''/'')"
  defines "w' \<equiv> fst (get_transcript_html E base_url0 cfg0 w)"
  defines "res \<equiv> snd (get_transcript_html E base_url0 cfg0 w)"
  defines "out \<equiv> outcome_at E w base_url"
  shows "((\<forall>j. j \<le> nat (max_parts cfg) \<longrightarrow> \<not> is_content (out j)) \<longrightarrow> (\<exists>e. res = Inl e))
       \<and> ((\<forall>j. j \<le> nat (max_parts cfg) \<longrightarrow> out j = Inr None)
            \<longrightarrow> res = Inl (TranscriptScrapeError no_fragments_message)
                \<and> n_req w' = n_req w + Suc (nat (max_parts cfg)))"
proof -
  let ?M = "max_parts cfg"
  let ?w1 = "emit (Request base_url) (w\<lparr>n_req := Suc (n_req w)\<rparr>)"
  let ?outs = "outcomes E (Suc (n_req w)) base_url [1..?M]"
  have w1: "n_req ?w1 = Suc (n_req w)"
    by (simp add: emit_def)
  obtain w2 r where pl: "parts_loop E base_url cfg [1..?M] [] ?w1 = (w2, r)"
    by (cases "parts_loop E base_url cfg [1..?M] [] ?w1") auto
  have mem: "\<exists>j. 1 \<le> j \<and> j \<le> nat ?M \<and> x = out j" if "x \<in> set ?outs" for x
  proof -
    from that obtain p where p: "p < nat ?M" "x = ?outs ! p"
      by (auto simp: in_set_conv_nth)
    then have "x = all_outcomes E w base_url ?M ! Suc p"
      by (simp add: all_outcomes_def)
    with p(1) have "x = out (Suc p)"
      by (simp add: all_outcomes_nth out_def)
    with p(1) show ?thesis by (intro exI[of _ "Suc p"]) simp
  qed
  have o0: "out 0 = fetch_outcome E (n_req w) base_url"
    by (simp add: out_def outcome_at_def fragment_url_def)
  have run: "get_transcript_html E base_url0 cfg0 w =
      (case fetch_outcome E (n_req w) base_url of
         Inl e \<Rightarrow> (?w1, Inl e)
       | Inr first \<Rightarrow>
           (let fragments = (case first of None \<Rightarrow> [] | Some b \<Rightarrow> if b \<noteq> [] then [b] else [])
            in case parts_loop E base_url cfg [1..?M] fragments ?w1 of
                 (w2, Inl e) \<Rightarrow> (w2, Inl e)
               | (w2, Inr frags) \<Rightarrow>
                   if frags = [] then (w2, Inl (TranscriptScrapeError no_fragments_message))
                   else (w2, Inr (join [LF] frags))))"
    unfolding get_transcript_html_def Let_def cfg_def[symmetric] base_url_def[symmetric]
    by (simp add: fetch_fragment_eq split: sum.splits)
  have a: "\<exists>e. res = Inl e" if h: "\<forall>j. j \<le> nat ?M \<longrightarrow> \<not> is_content (out j)"
  proof (cases "fetch_outcome E (n_req w) base_url")
    case (Inl e)
    with run show ?thesis by (simp add: res_def)
  next
    case (Inr v)
    from h have "\<not> is_content (out 0)" by simp
    with Inr o0 have v: "v = None" by (cases v) (auto simp: is_content_def)
    have "\<forall>x \<in> set (outcomes E (n_req ?w1) base_url [1..?M]). \<not> is_content x"
      using mem h w1 by auto
    from parts_loop_no_content[OF this pl] have "\<forall>fs. r = Inr fs \<longrightarrow> fs = []" by simp
    with run Inr v pl show ?thesis
      by (cases r) (auto simp: res_def)
  qed
  have b: "res = Inl (TranscriptScrapeError no_fragments_message) \<and> n_req w' = n_req w + Suc (nat ?M)"
    if h: "\<forall>j. j \<le> nat ?M \<longrightarrow> out j = Inr None"
  proof -
    from h have o: "out 0 = Inr None" by simp
    have all: "\<forall>x \<in> set (outcomes E (n_req ?w1) base_url [1..?M]). x = Inr None"
      using mem h w1 by auto
    then have "\<forall>x \<in> set (outcomes E (n_req ?w1) base_url [1..?M]). \<not> is_content x"
      by (auto simp: is_content_def)
    from parts_loop_no_content[OF this pl] all w1
    have "r = Inr []" "n_req w2 = Suc (n_req w) + nat ?M" by simp_all
    moreover from o o0 have "fetch_outcome E (n_req w) base_url = Inr None" by simp
    ultimately show ?thesis using run pl
      by (simp add: res_def w'_def)
  qed
  from a b show ?thesis by blast
qed

theorem get_transcript_html_no_content_witness:
  "snd (get_transcript_html \<lparr>net = net_of [], rnd = (\<lambda>n. 0), html_to_text = (\<lambda>s. s)\<rparr> ''u''
          (Some \<lparr>max_parts = 2, sleep_s = 0\<rparr>) world_init)
     = Inl (TranscriptScrapeError no_fragments_message)
   \<and> n_req (fst (get_transcript_html \<lparr>net = net_of [], rnd = (\<lambda>n. 0), html_to_text = (\<lambda>s. s)\<rparr> ''u''
          (Some \<lparr>max_parts = 2, sleep_s = 0\<rparr>) world_init)) = 3"
proof -
  let ?E = "\<lparr>net = net_of [], rnd = (\<lambda>n. 0), html_to_text = (\<lambda>s. s)\<rparr>"
  have o: "outcome_at ?E world_init u j = Inr None" for u j
    by (simp add: outcome_at_def fetch_outcome_def net_of_def fetch_fragment_response_def)
  from get_transcript_html_no_content[of "Some \<lparr>max_parts = 2, sleep_s = 0\<rparr>" ?E world_init "''u''"] o
  show ?thesis
    by (simp add: world_init_def)
qed

section \<open>Properties of the speaker segmenter\<close>

lemma segment_loop_no_speaker:
  assumes "\<forall>l \<in> set lns. \<not> looks_like_speaker l" and "\<not> truthy cur"
  shows "segment_loop lns (blocks, cur, buf) = (blocks, cur, buf)"
  using assms by (induction lns) auto

lemma segment_loop_append:
  "segment_loop (xs @ ys) st = segment_loop ys (segment_loop xs st)"
  by (induction xs arbitrary: st) (auto split: prod.splits)

text \<open>
  C9. When no line of the text (stripped, empty lines dropped) qualifies as a candidate
  speaker label, \<open>_parse_speaker_blocks_from_text\<close> returns exactly one block, whose speaker
  is \<open>Unknown\<close> and whose text is the full input text.
\<close>

theorem parse_speaker_blocks_no_candidate:
  assumes "\<forall>l \<in> set (lines_of full_text). \<not> looks_like_speaker l"
  shows "parse_speaker_blocks_from_text full_text = [\<lparr>speaker = ''Unknown'', block_text = full_text\<rparr>]"
proof -
  have "segment_loop (lines_of full_text) ([], None, []) = ([], None, [])"
    using assms by (intro segment_loop_no_speaker) (simp_all add: truthy_def)
  then show ?thesis
    by (simp add: parse_speaker_blocks_from_text_def segment_blocks_def flush_def truthy_def)
qed

theorem parse_speaker_blocks_no_candidate_witness:
  "parse_speaker_blocks_from_text (''Good morning, everyone.'' @ [LF] @ ''Thank you.'')
     = [\<lparr>speaker = ''Unknown'', block_text = ''Good morning, everyone.'' @ [LF] @ ''Thank you.''\<rparr>]"
proof -
  have l: "lines_of (''Good morning, everyone.'' @ [LF] @ ''Thank you.'')
             = [''Good morning, everyone.'', ''Thank you.'']"
    by code_simp
  have "\<not> looks_like_speaker ''Good morning, everyone.''" "\<not> looks_like_speaker ''Thank you.''"
    by code_simp+
  with l have "\<forall>l \<in> set (lines_of (''Good morning, everyone.'' @ [LF] @ ''Thank you.'')). \<not> looks_like_speaker l"
    by simp
  then show ?thesis
    by (rule parse_speaker_blocks_no_candidate)
qed

text \<open>
  C10 fails as stated. The text of the two lines \<open>Hi.\<close> and \<open>Bob\<close> has a candidate label,
  \<open>Bob\<close>, and a line before it that is none; no block is built, since nothing follows the
  label, so the fallback emits the whole text under \<open>Unknown\<close>: the line before the label is
  in the output.
\<close>

theorem segmenter_leading_lines_counterexample:
  "lines_of (''Hi.'' @ [LF] @ ''Bob'') = [''Hi.'', ''Bob'']
   \<and> \<not> looks_like_speaker ''Hi.'' \<and> looks_like_speaker ''Bob''
   \<and> parse_speaker_blocks_from_text (''Hi.'' @ [LF] @ ''Bob'')
       = [\<lparr>speaker = ''Unknown'', block_text = ''Hi.'' @ [LF] @ ''Bob''\<rparr>]
   \<and> list_ex (\<lambda>b. str_in ''Hi.'' (block_text b))
        (parse_speaker_blocks_from_text (''Hi.'' @ [LF] @ ''Bob''))"
  by code_simp

text \<open>
  C10, amended. Lines that precede the first candidate label leave no trace in the blocks the
  segmenter builds: the blocks of the lines \<open>pre @ rest\<close>, with no candidate label in \<open>pre\<close>,
  are the blocks of \<open>rest\<close> alone. So when the text yields at least one block the lines before
  the first label are in no block; when it yields none, the fallback emits the whole text,
  those lines included, under \<open>Unknown\<close>.
\<close>

theorem segmenter_leading_lines:
  "((\<forall>l \<in> set pre. \<not> looks_like_speaker l) \<longrightarrow> segment_blocks (pre @ rest) = segment_blocks rest)
   \<and> (lines_of full_text = pre @ rest \<and> (\<forall>l \<in> set pre. \<not> looks_like_speaker l)
        \<longrightarrow> parse_speaker_blocks_from_text full_text =
            (if segment_blocks rest = [] then [\<lparr>speaker = ''Unknown'', block_text = full_text\<rparr>]
             else segment_blocks rest))"
proof -
  have a: "segment_blocks (pre @ rest) = segment_blocks rest"
    if "\<forall>l \<in> set pre. \<not> looks_like_speaker l"
  proof -
    have "segment_loop pre ([], None, []) = ([], None, [])"
      using that by (intro segment_loop_no_speaker) (simp_all add: truthy_def)
    then show ?thesis
      by (simp add: segment_blocks_def segment_loop_append)
  qed
  then show ?thesis
    by (auto simp: parse_speaker_blocks_from_text_def Let_def)
qed

theorem segmenter_leading_lines_witness:
  "parse_speaker_blocks_from_text (''Hello all.'' @ [LF] @ ''Bob'' @ [LF] @ ''Thanks.'')
     = [\<lparr>speaker = ''Bob'', block_text = ''Thanks.''\<rparr>]"
proof -
  let ?t = "''Hello all.'' @ [LF] @ ''Bob'' @ [LF] @ ''Thanks.''"
  have l: "lines_of ?t = [''Hello all.''] @ [''Bob'', ''Thanks.'']"
    by code_simp
  have n: "\<forall>l \<in> set [''Hello all.'']. \<not> looks_like_speaker l"
    by code_simp
  have s: "segment_blocks [''Bob'', ''Thanks.''] = [\<lparr>speaker = ''Bob'', block_text = ''Thanks.''\<rparr>]"
    by code_simp
  from segmenter_leading_lines[of "[''Hello all.'']" "[''Bob'', ''Thanks.'']" ?t] l n
  have "parse_speaker_blocks_from_text ?t =
            (if segment_blocks [''Bob'', ''Thanks.''] = [] then [\<lparr>speaker = ''Unknown'', block_text = ?t\<rparr>]
             else segment_blocks [''Bob'', ''Thanks.''])"
    by blast
  with s show ?thesis by simp
qed

section \<open>Properties of the transcript normalizer\<close>

lemma sub_line_endings_no_CR: "CR \<notin> set (sub_line_endings s)"
  by (induction s rule: sub_line_endings.induct) (auto simp: CR_def LF_def)

lemma sub_line_endings_id: "CR \<notin> set s \<Longrightarrow> sub_line_endings s = s"
  by (induction s rule: sub_line_endings.induct) auto

lemma sub_line_endings_append:
  "\<not> (a \<noteq> [] \<and> last a = CR \<and> b \<noteq> [] \<and> hd b = LF) \<Longrightarrow>
   sub_line_endings (a @ b) = sub_line_endings a @ sub_line_endings b"
proof (induction a rule: sub_line_endings.induct)
  case 1
  then show ?case by simp
next
  case (2 c)
  then show ?case by (cases b) auto
next
  case (3 c d ds)
  then show ?case by (cases ds) (auto split: if_splits)
qed

lemma sub_line_endings_CRLF:
  "sub_line_endings (a @ CR # LF # b) = sub_line_endings a @ LF # sub_line_endings b"
proof -
  have "sub_line_endings (a @ (CR # LF # b)) = sub_line_endings a @ sub_line_endings (CR # LF # b)"
    by (rule sub_line_endings_append) (simp add: CR_def LF_def)
  then show ?thesis by simp
qed

lemma sub_line_endings_CR:
  assumes "b = [] \<or> hd b \<noteq> LF"
  shows "sub_line_endings (a @ CR # b) = sub_line_endings a @ LF # sub_line_endings b"
proof -
  have "sub_line_endings (a @ (CR # b)) = sub_line_endings a @ sub_line_endings (CR # b)"
    by (rule sub_line_endings_append) (simp add: CR_def LF_def)
  moreover have "sub_line_endings (CR # b) = LF # sub_line_endings b"
    using assms by (cases b) auto
  ultimately show ?thesis by simp
qed

lemma startswith_Nil [simp]: "startswith [] p = (p = [])"
  by (auto simp: startswith_def)

lemma startswith_length: "startswith s p \<Longrightarrow> length p \<le> length s"
  unfolding startswith_def by (drule arg_cong[where f = length]) simp

lemma startswith3: "startswith s [x, y, z] = (\<exists>t. s = x # y # z # t)"
proof (cases s)
  case Nil
  then show ?thesis by (simp add: startswith_def)
next
  case s1: (Cons a as)
  show ?thesis
  proof (cases as)
    case Nil
    with s1 show ?thesis by (simp add: startswith_def)
  next
    case s2: (Cons b bs)
    show ?thesis
    proof (cases bs)
      case Nil
      with s1 s2 show ?thesis by (simp add: startswith_def)
    next
      case (Cons c cs)
      with s1 s2 show ?thesis by (auto simp: startswith_def)
    qed
  qed
qed

lemma startswith_append: "startswith s p \<Longrightarrow> startswith (s @ b) p"
  using startswith_length[of s p] by (simp add: startswith_def)

lemma startswith_append_long: "length p \<le> length s \<Longrightarrow> startswith (s @ b) p = startswith s p"
  by (simp add: startswith_def)

lemma sub_blank_runs_Nil [simp]: "sub_blank_runs [] = []"
  by (simp add: sub_blank_runs.simps)

lemma sub_blank_runs_Cons:
  "\<not> startswith (c # cs) [LF, LF, LF] \<Longrightarrow> sub_blank_runs (c # cs) = c # sub_blank_runs cs"
  by (simp add: sub_blank_runs.simps[of "c # cs"])

lemma sub_blank_runs_append:
  "a = [] \<or> last a \<noteq> LF \<Longrightarrow> sub_blank_runs (a @ b) = sub_blank_runs a @ sub_blank_runs b"
proof (induction a rule: sub_blank_runs.induct)
  case (1 s)
  show ?case
  proof (cases "s = []")
    case True
    then show ?thesis by simp
  next
    case ne: False
    with 1(3) have last: "last s \<noteq> LF" by simp
    show ?thesis
    proof (cases "startswith s [LF, LF, LF]")
      case True
      then have sw: "startswith (s @ b) [LF, LF, LF]"
        by (rule startswith_append)
      from ne last have "\<exists>x \<in> set s. \<not> (x = LF)"
        using last_in_set by blast
      then have dw: "dropWhile (\<lambda>c. c = LF) (s @ b) = dropWhile (\<lambda>c. c = LF) s @ b"
        by (auto simp: dropWhile_append1)
      have dne: "dropWhile (\<lambda>c. c = LF) s \<noteq> []"
        using last ne by (metis (mono_tags, lifting) dropWhile_eq_Nil_conv last_in_set)
      have "last (dropWhile (\<lambda>c. c = LF) s) = last s"
        using dne by (metis append_Nil2 last_appendR takeWhile_dropWhile_id)
      with last 1(1)[OF True] have
        "sub_blank_runs (dropWhile (\<lambda>c. c = LF) s @ b)
           = sub_blank_runs (dropWhile (\<lambda>c. c = LF) s) @ sub_blank_runs b"
        by simp
      with True sw dw show ?thesis
        by (simp add: sub_blank_runs.simps[of s] sub_blank_runs.simps[of "s @ b"])
    next
      case False
      from ne obtain c cs where s: "s = c # cs" by (cases s) auto
      have nsw: "\<not> startswith (s @ b) [LF, LF, LF]"
      proof
        assume "startswith (s @ b) [LF, LF, LF]"
        then obtain t where t: "s @ b = LF # LF # LF # t"
          by (auto simp: startswith3)
        from False have n: "\<And>u. s \<noteq> LF # LF # LF # u"
          by (auto simp: startswith3)
        show False
        proof (cases cs)
          case Nil
          with s t last show False by simp
        next
          case c2: (Cons d ds)
          show False
          proof (cases ds)
            case Nil
            with s c2 t last show False by simp
          next
            case (Cons e es)
            with s c2 t n[of es] show False by simp
          qed
        qed
      qed
      have "cs = [] \<or> last cs \<noteq> LF"
        using last s by auto
      with 1(2)[OF False s] have "sub_blank_runs (cs @ b) = sub_blank_runs cs @ sub_blank_runs b"
        by simp
      with False nsw s show ?thesis
        by (simp add: sub_blank_runs.simps[of "c # cs"] sub_blank_runs.simps[of "c # cs @ b"])
    qed
  qed
qed


lemma sub_blank_runs_run:
  assumes "s = [] \<or> hd s \<noteq> LF"
  shows "sub_blank_runs (replicate n LF @ s)
           = (if 3 \<le> n then [LF, LF] else replicate n LF) @ sub_blank_runs s"
proof -
  have nsw: "\<not> startswith (replicate k LF @ s) [LF, LF, LF]" if "k < 3" for k
  proof -
    from that have "k = 0 \<or> k = 1 \<or> k = 2" by arith
    with assms show ?thesis
      by (cases s) (auto simp: startswith3 numeral_2_eq_2)
  qed
  have dw: "dropWhile (\<lambda>c. c = LF) (replicate n LF @ s) = s"
    using assms by (cases s) (auto simp: dropWhile_append)
  show ?thesis
  proof (cases "3 \<le> n")
    case True
    then obtain m where "n = Suc (Suc (Suc m))"
      by (metis Suc_le_D numeral_3_eq_3 Suc_le_mono)
    then have "startswith (replicate n LF @ s) [LF, LF, LF]"
      by (simp add: startswith3)
    with True dw show ?thesis
      by (simp add: sub_blank_runs.simps[of "replicate n LF @ s"])
  next
    case False
    then have "n = 0 \<or> n = 1 \<or> n = 2" by arith
    then show ?thesis
    proof (elim disjE)
      assume "n = 0"
      then show ?thesis by simp
    next
      assume n: "n = 1"
      from nsw[of 1] have "sub_blank_runs (LF # s) = LF # sub_blank_runs s"
        by (simp add: sub_blank_runs.simps[of "LF # s"])
      with n show ?thesis by simp
    next
      assume n: "n = 2"
      from nsw[of 1] have 1: "sub_blank_runs (LF # s) = LF # sub_blank_runs s"
        by (simp add: sub_blank_runs.simps[of "LF # s"])
      from nsw[of 2] have "sub_blank_runs (LF # LF # s) = LF # sub_blank_runs (LF # s)"
        by (simp add: sub_blank_runs.simps[of "LF # LF # s"] numeral_2_eq_2)
      with 1 n show ?thesis by (simp add: numeral_2_eq_2)
    qed
  qed
qed

lemma sub_blank_runs_id: "\<not> str_in [LF, LF, LF] s \<Longrightarrow> sub_blank_runs s = s"
proof (induction s)
  case Nil
  then show ?case by simp
next
  case (Cons c cs)
  then have "\<not> startswith (c # cs) [LF, LF, LF]" "\<not> str_in [LF, LF, LF] cs"
    by simp_all
  with Cons.IH show ?case
    by (simp add: sub_blank_runs.simps[of "c # cs"])
qed

lemma sub_blank_runs_hd:
  "s = [] \<or> hd s \<noteq> LF \<Longrightarrow> sub_blank_runs s = [] \<or> hd (sub_blank_runs s) \<noteq> LF"
  by (cases s) (auto simp: sub_blank_runs.simps[of "_ # _"] startswith3)

lemma str_in_LLL_Cons:
  "str_in [LF, LF, LF] (c # t) = ((\<exists>u. c # t = LF # LF # LF # u) \<or> str_in [LF, LF, LF] t)"
  by (simp add: startswith3)

lemma sub_blank_runs_starts_LF:
  "sub_blank_runs s = LF # r \<Longrightarrow> \<exists>t. s = LF # t"
  by (cases s) (auto simp: sub_blank_runs.simps[of "_ # _"] startswith3 split: if_splits)

lemma sub_blank_runs_no_triple: "\<not> str_in [LF, LF, LF] (sub_blank_runs s)"
proof (induction s rule: sub_blank_runs.induct)
  case (1 s)
  show ?case
  proof (cases "startswith s [LF, LF, LF]")
    case True
    let ?t = "dropWhile (\<lambda>c. c = LF) s"
    have "?t = [] \<or> hd ?t \<noteq> LF"
      by (metis (mono_tags, lifting) hd_dropWhile)
    then have h: "sub_blank_runs ?t = [] \<or> hd (sub_blank_runs ?t) \<noteq> LF"
      by (rule sub_blank_runs_hd)
    from 1(1)[OF True] have ih: "\<not> str_in [LF, LF, LF] (sub_blank_runs ?t)" .
    have "sub_blank_runs s = LF # LF # sub_blank_runs ?t"
      using True by (simp add: sub_blank_runs.simps[of s])
    moreover have "\<not> str_in [LF, LF, LF] (LF # LF # sub_blank_runs ?t)"
      using h ih by (cases "sub_blank_runs ?t") (auto simp: startswith3)
    ultimately show ?thesis by simp
  next
    case False
    show ?thesis
    proof (cases s)
      case Nil
      then show ?thesis by simp
    next
      case (Cons c cs)
      from 1(2)[OF False Cons] have ih: "\<not> str_in [LF, LF, LF] (sub_blank_runs cs)" .
      have eq: "sub_blank_runs s = c # sub_blank_runs cs"
        using False Cons by (simp add: sub_blank_runs.simps[of "c # cs"])
      have "\<not> (\<exists>u. c # sub_blank_runs cs = LF # LF # LF # u)"
      proof
        assume "\<exists>u. c # sub_blank_runs cs = LF # LF # LF # u"
        then obtain u where c: "c = LF" and u: "sub_blank_runs cs = LF # LF # u" by auto
        from sub_blank_runs_starts_LF[OF u] obtain t where t: "cs = LF # t" by blast
        have "\<not> startswith cs [LF, LF, LF]"
        proof
          assume "startswith cs [LF, LF, LF]"
          then have "startswith s [LF, LF, LF]"
            using Cons c by (auto simp: startswith3)
          with False show False by simp
        qed
        with t have "sub_blank_runs cs = LF # sub_blank_runs t"
          by (simp add: sub_blank_runs_Cons)
        with u have "sub_blank_runs t = LF # u" by simp
        from sub_blank_runs_starts_LF[OF this] obtain t' where "t = LF # t'" by blast
        with t Cons c have "startswith s [LF, LF, LF]" by (simp add: startswith3)
        with False show False by simp
      qed
      with ih eq show ?thesis by (simp add: startswith3)
    qed
  qed
qed

lemma strip_trimmed:
  "strip s = [] \<or> (\<not> is_space (hd (strip s)) \<and> \<not> is_space (last (strip s)))"
proof (cases "strip s = []")
  case True
  then show ?thesis by simp
next
  case False
  let ?l = "dropWhile is_space s"
  let ?r = "dropWhile is_space (rev ?l)"
  from False have r: "?r \<noteq> []"
    by (simp add: strip_def rstrip_def lstrip_def)
  then have "\<not> is_space (hd ?r)"
    by (metis (full_types) hd_dropWhile)
  then have la: "\<not> is_space (last (strip s))"
    using r by (simp add: strip_def rstrip_def lstrip_def last_rev)
  have l: "?l \<noteq> []"
  proof
    assume e: "?l = []"
    have "?r = []" by (simp only: e rev.simps(1) dropWhile.simps(1))
    with r show False by blast
  qed
  then have hl: "\<not> is_space (hd ?l)"
    by (metis (full_types) hd_dropWhile)
  have "rev ?l = takeWhile is_space (rev ?l) @ ?r"
    by simp
  then have "?l = rev ?r @ rev (takeWhile is_space (rev ?l))"
    by (metis rev_append rev_rev_ident)
  with r have "hd ?l = hd (rev ?r)"
    by (metis hd_append2 rev_is_Nil_conv)
  with hl have "\<not> is_space (hd (strip s))"
    by (simp add: strip_def rstrip_def lstrip_def)
  with la show ?thesis by simp
qed

lemma strip_frame:
  assumes "\<forall>c \<in> set a. is_space c" "\<forall>c \<in> set b. is_space c"
    and "m = [] \<or> (\<not> is_space (hd m) \<and> \<not> is_space (last m))"
  shows "strip (a @ m @ b) = m"
proof (cases "m = []")
  case True
  from assms(1,2) True have l: "lstrip (a @ m @ b) = []"
    by (simp add: lstrip_def)
  show ?thesis
    unfolding strip_def l by (simp add: rstrip_def True)
next
  case False
  with assms(3) have h: "\<not> is_space (hd m)" "\<not> is_space (last m)" by simp_all
  from False h(1) have dm: "dropWhile is_space (m @ b) = m @ b"
    by (cases m) auto
  from assms(1) have "dropWhile is_space (a @ m @ b) = dropWhile is_space (m @ b)"
    by (simp add: dropWhile_append)
  with dm have l: "lstrip (a @ m @ b) = m @ b"
    by (simp add: lstrip_def)
  from False h(2) have "dropWhile is_space (rev m) = rev m"
    by (cases "rev m") (auto simp: last_rev[symmetric] hd_rev)
  with assms(2) have "dropWhile is_space (rev b @ rev m) = rev m"
    by (simp add: dropWhile_append)
  with l show ?thesis
    by (simp add: strip_def rstrip_def)
qed


text \<open>
  C7 fails as stated. Between \<open>a\<close> and \<open>b\<close> the input below has three line feeds, that is
  two blank lines, fewer than three; the specification leaves such a run unchanged, the
  code rewrites it to one blank line.
\<close>

theorem normalize_whitespace_blank_lines_counterexample:
  "splitlines (''a'' @ [LF, LF, LF] @ ''b'') = [''a'', [], [], ''b'']
   \<and> normalize_whitespace (''a'' @ [LF, LF, LF] @ ''b'') = ''a'' @ [LF, LF] @ ''b''
   \<and> normalize_whitespace (''a'' @ [LF, LF, LF] @ ''b'') \<noteq> ''a'' @ [LF, LF, LF] @ ''b''"
  by code_simp

text \<open>
  C7, amended: the threshold counts line feeds, not blank lines. \<open>_normalize_whitespace\<close>
  is three stages in this order. The first writes a line feed for every \<open>\r\n\<close> and for every
  other \<open>\r\<close>, leaves a text without \<open>\r\<close> unchanged and leaves no \<open>\r\<close> behind. The second
  rewrites every maximal run of three or more line feeds (two or more blank lines) to exactly
  two line feeds (one blank line), leaves every shorter run and every text without three
  consecutive line feeds unchanged, and leaves no three consecutive line feeds behind. The
  third removes the whitespace at both ends: the result is empty or neither starts nor ends
  with whitespace.
\<close>

theorem normalize_whitespace_stages:
  "normalize_whitespace s = strip (sub_blank_runs (sub_line_endings s))
   \<and> CR \<notin> set (sub_line_endings s)
   \<and> sub_line_endings (a @ CR # LF # b) = sub_line_endings a @ LF # sub_line_endings b
   \<and> (b = [] \<or> hd b \<noteq> LF
        \<longrightarrow> sub_line_endings (a @ CR # b) = sub_line_endings a @ LF # sub_line_endings b)
   \<and> (CR \<notin> set s \<longrightarrow> sub_line_endings s = s)
   \<and> ((a = [] \<or> last a \<noteq> LF) \<and> (b = [] \<or> hd b \<noteq> LF)
        \<longrightarrow> sub_blank_runs (a @ replicate n LF @ b)
            = sub_blank_runs a @ (if 3 \<le> n then [LF, LF] else replicate n LF) @ sub_blank_runs b)
   \<and> (\<not> str_in [LF, LF, LF] s \<longrightarrow> sub_blank_runs s = s)
   \<and> \<not> str_in [LF, LF, LF] (sub_blank_runs s)
   \<and> ((\<forall>c \<in> set a. is_space c) \<and> (\<forall>c \<in> set b. is_space c)
        \<and> (m = [] \<or> (\<not> is_space (hd m) \<and> \<not> is_space (last m)))
        \<longrightarrow> strip (a @ m @ b) = m)
   \<and> (normalize_whitespace s = []
        \<or> (\<not> is_space (hd (normalize_whitespace s)) \<and> \<not> is_space (last (normalize_whitespace s))))"
proof -
  have runs: "sub_blank_runs (a @ replicate n LF @ b)
            = sub_blank_runs a @ (if 3 \<le> n then [LF, LF] else replicate n LF) @ sub_blank_runs b"
    if "a = [] \<or> last a \<noteq> LF" "b = [] \<or> hd b \<noteq> LF"
    using sub_blank_runs_append[OF that(1), of "replicate n LF @ b"] sub_blank_runs_run[OF that(2), of n]
    by simp
  have trimmed: "normalize_whitespace s = []
        \<or> (\<not> is_space (hd (normalize_whitespace s)) \<and> \<not> is_space (last (normalize_whitespace s)))"
    unfolding normalize_whitespace_def by (rule strip_trimmed)
  show ?thesis
    using runs trimmed sub_line_endings_no_CR[of s] sub_line_endings_CRLF[of a b]
      sub_line_endings_CR[of b a] sub_line_endings_id[of s] sub_blank_runs_id[of s]
      sub_blank_runs_no_triple[of s] strip_frame[of a b m]
    by (intro conjI impI) (simp_all add: normalize_whitespace_def)
qed

theorem normalize_whitespace_stages_witness:
  "sub_blank_runs (''a'' @ replicate 4 LF @ ''b'') = ''a'' @ [LF, LF] @ ''b''
   \<and> sub_blank_runs (''a'' @ replicate 2 LF @ ''b'') = ''a'' @ [LF, LF] @ ''b''
   \<and> sub_line_endings (''a'' @ CR # ''b'') = ''a'' @ LF # ''b''
   \<and> strip ('' '' @ ''a b'' @ [LF]) = ''a b''"
proof -
  have i: "sub_blank_runs ''a'' = ''a''" "sub_blank_runs ''b'' = ''b''"
    "sub_line_endings ''a'' = ''a''" "sub_line_endings ''b'' = ''b''"
    using normalize_whitespace_stages[of "''a''"] normalize_whitespace_stages[of "''b''"]
    by (simp_all add: CR_def LF_def startswith_def)
  have sp: "\<forall>c \<in> set '' ''. is_space c" "\<forall>c \<in> set [LF]. is_space c"
    "\<not> is_space (hd ''a b'')" "\<not> is_space (last ''a b'')"
    by (simp_all add: is_space_def LF_def)
  have ab: "last ''a'' \<noteq> LF" "hd ''b'' \<noteq> LF"
    by (simp_all add: LF_def)
  from normalize_whitespace_stages[of "''a''" "''a''" "''b''" 4 "[]"] ab i
  have 1: "sub_blank_runs (''a'' @ replicate 4 LF @ ''b'') = ''a'' @ [LF, LF] @ ''b''"
    by simp
  from normalize_whitespace_stages[of "''a''" "''a''" "''b''" 2 "[]"] ab i
  have 2: "sub_blank_runs (''a'' @ replicate 2 LF @ ''b'') = ''a'' @ [LF, LF] @ ''b''"
    by (simp add: numeral_2_eq_2)
  from normalize_whitespace_stages[of "''a''" "''a''" "''b''" 0 "[]"] ab i
  have 3: "sub_line_endings (''a'' @ CR # ''b'') = ''a'' @ LF # ''b''"
    by simp
  from normalize_whitespace_stages[of "[]" "'' ''" "[LF]" 0 "''a b''"] sp
  have 4: "strip ('' '' @ ''a b'' @ [LF]) = ''a b''"
    by simp
  from 1 2 3 4 show ?thesis by blast
qed


section \<open>Properties of the batch retry controller\<close>





lemma unit_lines_append [simp]: "unit_lines (a @ b) = unit_lines a @ unit_lines b"
  by (induction a rule: unit_lines.induct) auto

lemma quiet_refl [simp]: "quiet w w"
  by (simp add: quiet_def)

lemma quiet_trans: "quiet w w1 \<Longrightarrow> quiet w1 w2 \<Longrightarrow> quiet w w2"
  by (auto simp: quiet_def)

lemma fetch_fragment_quiet:
  "fetch_fragment E u w = (w', r) \<Longrightarrow> quiet w w' \<and> files w' = files w \<and> n_rnd w' = n_rnd w"
  by (auto simp: fetch_fragment_eq emit_def quiet_def)

lemma time_sleep_quiet:
  "time_sleep d w = (w', r) \<Longrightarrow> quiet w w' \<and> files w' = files w \<and> n_rnd w' = n_rnd w \<and> n_req w' = n_req w"
  by (auto simp: time_sleep_def emit_def quiet_def split: if_splits)

lemma parts_loop_quiet:
  "parts_loop E base_url cfg is frags w = (w', r) \<Longrightarrow>
   quiet w w' \<and> files w' = files w \<and> n_rnd w' = n_rnd w"
proof (induction "is" arbitrary: frags w)
  case Nil
  then show ?case by simp
next
  case (Cons i "is")
  obtain w1 r1 where f: "fetch_fragment E (base_url @ str_int i @ ''/'') w = (w1, r1)"
    by (cases "fetch_fragment E (base_url @ str_int i @ ''/'') w") auto
  note q1 = fetch_fragment_quiet[OF f]
  show ?case
  proof (cases r1)
    case (Inl e)
    with Cons.prems f q1 show ?thesis by simp
  next
    case (Inr v)
    show ?thesis
    proof (cases v)
      case None
      show ?thesis
      proof (cases "frags = []")
        case True
        with Cons.prems f Inr None have "parts_loop E base_url cfg is [] w1 = (w', r)" by simp
        from Cons.IH[OF this] q1 show ?thesis by (auto intro: quiet_trans)
      next
        case False
        with Cons.prems f Inr None q1 show ?thesis by simp
      qed
    next
      case (Some b)
      show ?thesis
      proof (cases "sleep_s cfg \<noteq> 0")
        case False
        with Cons.prems f Inr Some have "parts_loop E base_url cfg is (frags @ [b]) w1 = (w', r)" by simp
        from Cons.IH[OF this] q1 show ?thesis by (auto intro: quiet_trans)
      next
        case True
        obtain w2 r2 where s: "time_sleep (sleep_s cfg) w1 = (w2, r2)"
          by (cases "time_sleep (sleep_s cfg) w1") auto
        note q2 = time_sleep_quiet[OF s]
        show ?thesis
        proof (cases r2)
          case (Inl e)
          with Cons.prems f Inr Some True s q1 q2 show ?thesis by (auto intro: quiet_trans)
        next
          case r2: (Inr u)
          with Cons.prems f Inr Some True s have "parts_loop E base_url cfg is (frags @ [b]) w2 = (w', r)"
            by simp
          from Cons.IH[OF this] q1 q2 show ?thesis by (auto intro: quiet_trans)
        qed
      qed
    qed
  qed
qed

lemma get_transcript_html_quiet:
  assumes "get_transcript_html E u cfg0 w = (w', r)"
  shows "quiet w w' \<and> files w' = files w \<and> n_rnd w' = n_rnd w"
proof -
  define cfg where "cfg = (case cfg0 of None \<Rightarrow> ScrapeConfig_default | Some c \<Rightarrow> c)"
  define base_url where "base_url = (if endswith u ''/'' then u else u @ ''/'')"
  obtain w1 r1 where f: "fetch_fragment E base_url w = (w1, r1)"
    by (cases "fetch_fragment E base_url w") auto
  note q1 = fetch_fragment_quiet[OF f]
  show ?thesis
  proof (cases r1)
    case (Inl e)
    with assms f q1 show ?thesis
      by (simp add: get_transcript_html_def Let_def base_url_def[symmetric])
  next
    case (Inr first)
    define frags0 where "frags0 = (case first of None \<Rightarrow> [] | Some b \<Rightarrow> if b \<noteq> [] then [b] else [])"
    obtain w2 r2 where p: "parts_loop E base_url cfg [1..max_parts cfg] frags0 w1 = (w2, r2)"
      by (cases "parts_loop E base_url cfg [1..max_parts cfg] frags0 w1") auto
    note q2 = parts_loop_quiet[OF p]
    from assms f Inr p have "w' = w2"
      by (auto simp: get_transcript_html_def Let_def base_url_def[symmetric] cfg_def[symmetric]
          frags0_def[symmetric] split: sum.splits if_splits)
    with q1 q2 show ?thesis by (auto intro: quiet_trans)
  qed
qed


lemma parts_loop_error_kind:
  "parts_loop E base_url cfg is frags w = (w', Inl e) \<Longrightarrow>
   (\<exists>m. e = TranscriptScrapeError m) \<or> (\<exists>m. e = ValueError m) \<or> (\<exists>x. e = OtherException x)"
proof (induction "is" arbitrary: frags w)
  case Nil
  then show ?case by simp
next
  case (Cons i "is")
  show ?case
  proof (cases "fetch_outcome E (n_req w) (base_url @ str_int i @ ''/'')")
    case (Inl e')
    with Cons.prems show ?thesis
      by (auto simp: fetch_fragment_eq fetch_outcome_def fetch_fragment_response_def Let_def
          split: sum.splits if_splits)
  next
    case (Inr v)
    with Cons.prems Cons.IH show ?thesis
      by (cases v) (auto simp: fetch_fragment_eq time_sleep_def split: if_splits)
  qed
qed

lemma get_transcript_html_error_kind:
  assumes "get_transcript_html E u cfg0 w = (w', Inl e)"
  shows "(\<exists>m. e = TranscriptScrapeError m) \<or> (\<exists>m. e = ValueError m) \<or> (\<exists>x. e = OtherException x)"
proof (cases "fetch_outcome E (n_req w) (if endswith u ''/'' then u else u @ ''/'')")
  case (Inl e')
  with assms show ?thesis
    by (auto simp: get_transcript_html_def Let_def fetch_fragment_eq fetch_outcome_def
        fetch_fragment_response_def split: sum.splits if_splits)
next
  case (Inr v)
  with assms show ?thesis
    by (auto simp: get_transcript_html_def Let_def fetch_fragment_eq
        split: sum.splits if_splits prod.splits dest: parts_loop_error_kind)
qed


lemma backoff_delay_nonneg:
  assumes "rnd_ok E" and "backoff_delay_s E a 15 600 w = (w', Inr d)"
  shows "0 \<le> d"
proof -
  have "0 \<le> rnd E (n_rnd w)" using assms(1) by (simp add: rnd_ok_def)
  moreover have "0 \<le> min 600 (15 * pow2 a)"
    by (simp add: pow2_def)
  ultimately show ?thesis
    using assms(2) by (auto simp: backoff_delay_s_def random_def Let_def split: if_splits)
qed

lemma backoff_delay_error:
  assumes "backoff_delay_s E a b c w = (w2, Inl e)"
  shows "w2 = w \<and> 1024 \<le> a \<and> e = OverflowError ''int too large to convert to float''"
  using assms by (auto simp: backoff_delay_s_def random_def Let_def split: if_splits)

lemma backoff_delay_frame:
  assumes "backoff_delay_s E a b c w = (w2, r)"
  shows "trace w2 = trace w \<and> files w2 = files w \<and> n_req w2 = n_req w"
  using assms by (auto simp: backoff_delay_s_def random_def Let_def split: if_splits)

lemma backoff_delay_ok:
  assumes "a < 1024" and "backoff_delay_s E a b c w = (w2, r)"
  shows "\<exists>d. r = Inr d"
  using assms by (auto simp: backoff_delay_s_def random_def Let_def split: if_splits)

lemma backoff_sleep_quiet:
  assumes "backoff_delay_s E a b c w = (w2, Inr d)"
    and "time_sleep d (emit (Print (RATE_LIMIT t y q d n)) w2) = (w3, r)"
  shows "quiet w w3 \<and> files w3 = files w \<and> n_req w3 = n_req w"
  using assms
  by (auto simp: backoff_delay_s_def random_def Let_def time_sleep_def emit_def quiet_def
      split: if_splits)

lemma backoff_sleep_ok:
  assumes "rnd_ok E" and "backoff_delay_s E a 15 600 w = (w2, Inr d)"
    and "time_sleep d w2' = (w3, r)"
  shows "r = Inr ()"
  using backoff_delay_nonneg[OF assms(1,2)] assms(3)
  by (auto simp: time_sleep_def split: if_splits)


lemma rate_limited_pass_eq:
  assumes "get_transcript_html E (unit_url t (arg_year A) q) (Some (arg_cfg A)) w = (w1, r1)"
  shows "rate_limited_pass E A t q w =
     (case r1 of Inr html \<Rightarrow> is_rate_limited_message (transcript_text_from_html E html)
      | Inl (TranscriptScrapeError msg) \<Rightarrow> is_rate_limited_message msg
      | Inl _ \<Rightarrow> False)"
  using assms by (simp add: rate_limited_pass_def)

lemma ends_unitI:
  "unit_lines evs' = [] \<Longrightarrow> l = OK t y q \<or> (\<exists>e. l = SKIP t y q e) \<or> (\<exists>e. l = ERR t y q e) \<Longrightarrow>
   ends_unit t y q (evs' @ [Print l])"
  unfolding ends_unit_def by blast

lemma attempt_body_cases:
  assumes g: "get_transcript_html E (unit_url t (arg_year A) q) (Some (arg_cfg A)) w = (w1, r1)"
    and b: "attempt_body E A t q attempt w = (w', c)"
  shows "(\<exists>evs. trace w' = trace w @ evs
            \<and> (if c = Break then ends_unit t (arg_year A) q evs else unit_lines evs = []))
       \<and> (rate_limited_pass E A t q w \<and> arg_max_rate_limit_retries A \<le> attempt
            \<longrightarrow> c = Raise (RateLimitReached t (arg_year A) q) \<and> w' = w1)
       \<and> (rnd_ok E \<and> rate_limited_pass E A t q w \<and> attempt < arg_max_rate_limit_retries A
              \<and> attempt < 1024 \<longrightarrow> c = Continue)
       \<and> (\<not> rate_limited_pass E A t q w \<longrightarrow> c = Break)
       \<and> (rnd_ok E \<and> (attempt < 1024 \<or> arg_max_rate_limit_retries A \<le> attempt)
            \<longrightarrow> (\<forall>e. c = Raise e \<longrightarrow> e = RateLimitReached t (arg_year A) q
              \<and> arg_max_rate_limit_retries A \<le> attempt \<and> rate_limited_pass E A t q w))
       \<and> (\<forall>m. r1 = Inl (TranscriptScrapeError m) \<and> \<not> is_rate_limited_message m
            \<longrightarrow> c = Break \<and> trace w' = trace w1 @ [Print (SKIP t (arg_year A) q (TranscriptScrapeError m))]
                \<and> files w' = files w)
       \<and> (\<forall>e. r1 = Inl e \<and> (\<forall>m. e \<noteq> TranscriptScrapeError m)
            \<longrightarrow> c = Break \<and> trace w' = trace w1 @ [Print (ERR t (arg_year A) q e)] \<and> files w' = files w)"
proof -
  let ?y = "arg_year A"
  note q1 = get_transcript_html_quiet[OF g]
  from q1 obtain ev1 where ev1: "trace w1 = trace w @ ev1" "unit_lines ev1 = []"
    by (auto simp: quiet_def)
  note rl = rate_limited_pass_eq[OF g]
  obtain w2 rd where bo: "backoff_delay_s E attempt 15 600 w1 = (w2, rd)"
    by (cases "backoff_delay_s E attempt 15 600 w1") auto
  from backoff_delay_frame[OF bo] ev1 have ev2: "trace w2 = trace w @ ev1"
    by simp
  show ?thesis
  proof (cases r1)
    case (Inr html)
    let ?txt = "transcript_text_from_html E html"
    show ?thesis
    proof (cases "is_rate_limited_message ?txt")
      case rlm: True
      show ?thesis
      proof (cases "arg_max_rate_limit_retries A \<le> attempt")
        case True
        with b g Inr rlm have "w' = w1" "c = Raise (RateLimitReached t ?y q)"
          by (simp_all add: attempt_body_def Let_def)
        with ev1 rl Inr rlm True show ?thesis by simp
      next
        case False
        show ?thesis
        proof (cases rd)
          case ovf: (Inl e)
          from backoff_delay_error[OF bo[unfolded ovf]] have big: "1024 \<le> attempt" by simp
          from b g Inr rlm False bo ovf have "w' = emit (Print (ERR t ?y q e)) w2" "c = Break"
            by (simp_all add: attempt_body_def Let_def)
          moreover have "ends_unit t ?y q (ev1 @ [Print (ERR t ?y q e)])"
            using ev1(2) by (intro ends_unitI) auto
          ultimately show ?thesis
            using ev2 rl Inr rlm False big by (auto simp: emit_def)
        next
          case dl: (Inr d)
          obtain w3 r3 where ts:
            "time_sleep d (emit (Print (RATE_LIMIT t ?y q d (attempt + 1))) w2) = (w3, r3)"
            by (cases "time_sleep d (emit (Print (RATE_LIMIT t ?y q d (attempt + 1))) w2)") auto
          from backoff_sleep_quiet[OF bo[unfolded dl] ts] ev1 obtain ev3 where
            ev3: "trace w3 = trace w @ ev3" "unit_lines ev3 = []"
            by (auto simp: quiet_def)
          have ok3: "r3 = Inr ()" if "rnd_ok E"
            using backoff_sleep_ok[OF that bo[unfolded dl] ts] .
          show ?thesis
          proof (cases r3)
            case (Inl e)
            with b g Inr rlm False bo dl ts have "w' = emit (Print (ERR t ?y q e)) w3" "c = Break"
              by (simp_all add: attempt_body_def Let_def)
            moreover have "ends_unit t ?y q (ev3 @ [Print (ERR t ?y q e)])"
              using ev3(2) by (intro ends_unitI) auto
            ultimately show ?thesis
              using ev3 rl Inr rlm False ok3 Inl by (auto simp: emit_def)
          next
            case r3: (Inr u)
            with b g Inr rlm False bo dl ts have "w' = w3" "c = Continue"
              by (simp_all add: attempt_body_def Let_def)
            with ev3 rl Inr rlm False show ?thesis by simp
          qed
        qed
      qed
    next
      case nrl: False
      from b g Inr nrl obtain wf where
        wf: "w' = emit (Print (OK t ?y q)) wf" "trace wf = trace w1" and c: "c = Break"
        by (auto simp: attempt_body_def Let_def save_transcript_txt_from_text_def
            save_transcript_csv_from_blocks_def)
      have "ends_unit t ?y q (ev1 @ [Print (OK t ?y q)])"
        using ev1(2) by (intro ends_unitI) auto
      with wf c ev1 rl Inr nrl show ?thesis by (auto simp: emit_def)
    qed
  next
    case (Inl e)
    show ?thesis
    proof (cases "\<exists>m. e = TranscriptScrapeError m")
      case True
      then obtain m where m: "e = TranscriptScrapeError m" by blast
      show ?thesis
      proof (cases "is_rate_limited_message m")
        case rlm: True
        show ?thesis
        proof (cases "arg_max_rate_limit_retries A \<le> attempt")
          case True
          with b g Inl m rlm have "w' = w1" "c = Raise (RateLimitReached t ?y q)"
            by (simp_all add: attempt_body_def Let_def)
          with ev1 rl Inl m rlm True show ?thesis by simp
        next
          case False
          show ?thesis
          proof (cases rd)
            case ovf: (Inl e')
            from backoff_delay_error[OF bo[unfolded ovf]] have big: "1024 \<le> attempt" by simp
            from b g Inl m rlm False bo ovf have "w' = w2" "c = Raise e'"
              by (simp_all add: attempt_body_def Let_def)
            with ev2 ev1(2) rl Inl m rlm False big show ?thesis by auto
          next
            case dl: (Inr d)
            obtain w3 r3 where ts:
              "time_sleep d (emit (Print (RATE_LIMIT t ?y q d (attempt + 1))) w2) = (w3, r3)"
              by (cases "time_sleep d (emit (Print (RATE_LIMIT t ?y q d (attempt + 1))) w2)") auto
            from backoff_sleep_quiet[OF bo[unfolded dl] ts] ev1 obtain ev3 where
              ev3: "trace w3 = trace w @ ev3" "unit_lines ev3 = []"
              by (auto simp: quiet_def)
            have ok3: "r3 = Inr ()" if "rnd_ok E"
              using backoff_sleep_ok[OF that bo[unfolded dl] ts] .
            show ?thesis
            proof (cases r3)
              case e3: (Inl e')
              with b g Inl m rlm False bo dl ts have "w' = w3" "c = Raise e'"
                by (simp_all add: attempt_body_def Let_def)
              with ev3 rl Inl m rlm False ok3 e3 show ?thesis by auto
            next
              case r3: (Inr u)
              with b g Inl m rlm False bo dl ts have "w' = w3" "c = Continue"
                by (simp_all add: attempt_body_def Let_def)
              with ev3 rl Inl m rlm False show ?thesis by simp
            qed
          qed
        qed
      next
        case nrl: False
        with b g Inl m have w': "w' = emit (Print (SKIP t ?y q (TranscriptScrapeError m))) w1"
          and c: "c = Break"
          by (simp_all add: attempt_body_def Let_def)
        have "ends_unit t ?y q (ev1 @ [Print (SKIP t ?y q (TranscriptScrapeError m))])"
          using ev1(2) by (intro ends_unitI) auto
        with w' c ev1 rl Inl m nrl q1 show ?thesis by (auto simp: emit_def)
      qed
    next
      case False
      from get_transcript_html_error_kind[OF g[unfolded Inl]] False
      have k: "(\<exists>m. e = ValueError m) \<or> (\<exists>x. e = OtherException x)" by blast
      with b g Inl have w': "w' = emit (Print (ERR t ?y q e)) w1" and c: "c = Break"
        by (auto simp: attempt_body_def Let_def)
      have "ends_unit t ?y q (ev1 @ [Print (ERR t ?y q e)])"
        using ev1(2) by (intro ends_unitI) auto
      moreover have "\<not> rate_limited_pass E A t q w"
        using rl Inl k by auto
      ultimately show ?thesis
        using w' c ev1 Inl False q1 by (auto simp: emit_def)
    qed
  qed
qed


lemma attempt_body_events:
  assumes "attempt_body E A t q attempt w = (w', c)"
  shows "\<exists>evs. trace w' = trace w @ evs
            \<and> (if c = Break then ends_unit t (arg_year A) q evs else unit_lines evs = [])"
proof -
  obtain w1 r1 where g: "get_transcript_html E (unit_url t (arg_year A) q) (Some (arg_cfg A)) w = (w1, r1)"
    by (cases "get_transcript_html E (unit_url t (arg_year A) q) (Some (arg_cfg A)) w") auto
  from attempt_body_cases[OF g assms] show ?thesis
    by (rule conjunct1)
qed






lemma retry_loop_events:
  assumes "retry_loop E A t q attempt w = (w', r)"
  shows "\<exists>evs. trace w' = trace w @ evs
            \<and> (case r of Inr u \<Rightarrow> ends_unit t (arg_year A) q evs | Inl e \<Rightarrow> unit_lines evs = [])"
  using assms
proof (induction E A t q attempt w rule: retry_loop.induct)
  case (1 E A t q attempt w)
  obtain w1 c where b: "attempt_body E A t q attempt w = (w1, c)"
    by (cases "attempt_body E A t q attempt w") auto
  from attempt_body_events[OF b] obtain ev1 where
    ev1: "trace w1 = trace w @ ev1"
      "if c = Break then ends_unit t (arg_year A) q ev1 else unit_lines ev1 = []"
    by blast
  show ?case
  proof (cases c)
    case Continue
    with 1(2) b have "retry_loop E A t q (attempt + 1) w1 = (w', r)"
      by (simp add: retry_loop.simps[of E A t q attempt w])
    from 1(1)[OF b[symmetric] Continue this] obtain ev2 where
      ev2: "trace w' = trace w1 @ ev2"
        "case r of Inr u \<Rightarrow> ends_unit t (arg_year A) q ev2 | Inl e \<Rightarrow> unit_lines ev2 = []"
      by blast
    from ev1 Continue have u1: "unit_lines ev1 = []" by simp
    have "case r of Inr u \<Rightarrow> ends_unit t (arg_year A) q (ev1 @ ev2) | Inl e \<Rightarrow> unit_lines (ev1 @ ev2) = []"
    proof (cases r)
      case (Inl e)
      with ev2(2) u1 show ?thesis by simp
    next
      case (Inr u)
      with ev2(2) obtain evs' l where "ev2 = evs' @ [Print l]" "unit_lines evs' = []"
        "l = OK t (arg_year A) q \<or> (\<exists>e. l = SKIP t (arg_year A) q e) \<or> (\<exists>e. l = ERR t (arg_year A) q e)"
        by (auto simp: ends_unit_def)
      with u1 have "ends_unit t (arg_year A) q ((ev1 @ evs') @ [Print l])"
        by (intro ends_unitI) auto
      with \<open>ev2 = evs' @ [Print l]\<close> Inr show ?thesis by simp
    qed
    with ev1(1) ev2(1) show ?thesis
      by (intro exI[of _ "ev1 @ ev2"]) simp
  next
    case Break
    with 1(2) b have "w' = w1" "r = Inr ()"
      by (simp_all add: retry_loop.simps[of E A t q attempt w])
    with ev1 Break show ?thesis by auto
  next
    case (Raise e)
    with 1(2) b have "w' = w1" "r = Inl e"
      by (simp_all add: retry_loop.simps[of E A t q attempt w])
    with ev1 Raise show ?thesis by auto
  qed
qed



lemma sleep_with_jitter_eq:
  "sleep_with_jitter E b j w =
     (if b \<le> 0 \<and> j \<le> 0 then w
      else emit (Sleep (max 0 (b + rnd E (n_rnd w) * max 0 j))) (w\<lparr>n_rnd := Suc (n_rnd w)\<rparr>),
      Inr ())"
  by (simp add: sleep_with_jitter_def random_def time_sleep_def)




lemma attempt_body_break_frame:
  assumes "get_transcript_html E (unit_url t (arg_year A) q) (Some (arg_cfg A)) w = (w1, Inl e)"
    and "attempt_body E A t q attempt w = (w', Break)"
  shows "n_req w' = n_req w1 \<and> files w' = files w1 \<and> n_rnd w' = n_rnd w1"
  using assms
  by (cases e)
     (auto simp: attempt_body_def Let_def emit_def split: if_splits prod.splits sum.splits)

lemma attempt_body_saved:
  assumes "get_transcript_html E (unit_url t (arg_year A) q) (Some (arg_cfg A)) w = (w1, Inr html)"
    and "\<not> is_rate_limited_message (transcript_text_from_html E html)"
    and "attempt_body E A t q attempt w = (w', c)"
  shows "c = Break \<and> n_req w' = n_req w1
       \<and> (already_processed [arg_output_dir A, safe_filename t]
             (unit_stem (safe_filename t) (arg_year A) q) (arg_save_txt A) (arg_save_csv A) w'
           \<longleftrightarrow> (arg_save_txt A \<or> arg_save_csv A)
               \<and> (arg_save_txt A \<longrightarrow> transcript_text_from_html E html \<noteq> []))"
  using assms
  by (auto simp: attempt_body_def Let_def emit_def already_processed_def file_nonempty_def
      save_transcript_txt_from_text_def save_transcript_csv_from_blocks_def)

lemma get_transcript_html_requests:
  assumes "get_transcript_html E u cfg0 w = (w', r)"
  shows "n_req w < n_req w'"
proof -
  let ?b = "if endswith u ''/'' then u else u @ ''/''"
  obtain w1 r1 where f: "fetch_fragment E ?b w = (w1, r1)"
    by (cases "fetch_fragment E ?b w") auto
  then have n1: "n_req w1 = Suc (n_req w)"
    by (auto simp: fetch_fragment_eq emit_def)
  have mono: "n_req a \<le> n_req b" if "parts_loop E bu cfg is fr a = (b, rr)" for bu cfg "is" fr a b rr
    using that
  proof (induction "is" arbitrary: fr a)
    case Nil
    then show ?case by simp
  next
    case (Cons i "is")
    show ?case
    proof (cases "fetch_outcome E (n_req a) (bu @ str_int i @ ''/'')")
      case (Inl e)
      with Cons.prems show ?thesis by (auto simp: fetch_fragment_eq emit_def)
    next
      case (Inr v)
      show ?thesis
      proof (cases v)
        case None
        with Cons.prems Inr Cons.IH[of "[]"] show ?thesis
          by (fastforce simp: fetch_fragment_eq emit_def split: if_splits)
      next
        case (Some b')
        with Cons.prems Inr Cons.IH[of "fr @ [b']"] show ?thesis
          by (fastforce simp: fetch_fragment_eq emit_def time_sleep_def split: if_splits)
      qed
    qed
  qed
  from assms f show ?thesis
    using n1 mono
    by (fastforce simp: get_transcript_html_def Let_def split: sum.splits prod.splits if_splits)
qed


lemma attempt_body_n_req:
  assumes "get_transcript_html E (unit_url t (arg_year A) q) (Some (arg_cfg A)) w = (w1, r1)"
    and "attempt_body E A t q attempt w = (w', c)"
  shows "n_req w' = n_req w1"
proof (cases r1)
  case (Inr html)
  with assms show ?thesis
    by (auto simp: attempt_body_def Let_def emit_def save_transcript_txt_from_text_def
        save_transcript_csv_from_blocks_def backoff_delay_s_def random_def time_sleep_def
        split: if_splits)
next
  case (Inl e)
  with assms show ?thesis
    by (cases e)
       (auto simp: attempt_body_def Let_def emit_def backoff_delay_s_def random_def time_sleep_def
         split: if_splits)
qed

lemma attempt_body_files:
  assumes "get_transcript_html E (unit_url t (arg_year A) q) (Some (arg_cfg A)) w = (w1, r1)"
    and "attempt_body E A t q attempt w = (w', c)"
  shows "files w' = files w
       \<or> (c = Break \<and> \<not> rate_limited_pass E A t q w \<and> (\<exists>html. r1 = Inr html)
           \<and> (\<exists>evs. trace w' = evs @ [Print (OK t (arg_year A) q)]))"
proof -
  from get_transcript_html_quiet[OF assms(1)] have f1: "files w1 = files w" by simp
  note rl = rate_limited_pass_eq[OF assms(1)]
  show ?thesis
  proof (cases r1)
    case (Inr html)
    with assms f1 rl show ?thesis
      by (auto simp: attempt_body_def Let_def emit_def backoff_delay_s_def random_def time_sleep_def
          split: if_splits)
  next
    case (Inl e)
    with assms f1 show ?thesis
      by (cases e)
         (auto simp: attempt_body_def Let_def emit_def backoff_delay_s_def random_def time_sleep_def
           split: if_splits)
  qed
qed

lemma attempt_body_requests:
  assumes "attempt_body E A t q attempt w = (w', c)"
  shows "n_req w < n_req w'"
proof -
  obtain w1 r1 where g: "get_transcript_html E (unit_url t (arg_year A) q) (Some (arg_cfg A)) w = (w1, r1)"
    by (cases "get_transcript_html E (unit_url t (arg_year A) q) (Some (arg_cfg A)) w") auto
  from get_transcript_html_requests[OF g] attempt_body_n_req[OF g assms] show ?thesis by simp
qed

lemma retry_loop_requests:
  assumes "retry_loop E A t q attempt w = (w', r)"
  shows "n_req w < n_req w'"
  using assms
proof (induction E A t q attempt w rule: retry_loop.induct)
  case (1 E A t q attempt w)
  obtain w1 c where b: "attempt_body E A t q attempt w = (w1, c)"
    by (cases "attempt_body E A t q attempt w") auto
  note n1 = attempt_body_requests[OF b]
  show ?case
  proof (cases c)
    case Continue
    with 1(2) b have "retry_loop E A t q (attempt + 1) w1 = (w', r)"
      by (simp add: retry_loop.simps[of E A t q attempt w])
    from 1(1)[OF b[symmetric] Continue this] n1 show ?thesis by simp
  next
    case Break
    with 1(2) b n1 show ?thesis
      by (simp add: retry_loop.simps[of E A t q attempt w])
  next
    case (Raise e)
    with 1(2) b n1 show ?thesis
      by (simp add: retry_loop.simps[of E A t q attempt w])
  qed
qed

lemma process_unit_requests:
  assumes "\<not> already_processed [arg_output_dir A, safe_filename t]
              (unit_stem (safe_filename t) (arg_year A) q) (arg_save_txt A) (arg_save_csv A) w"
  shows "n_req w < n_req (fst (process_unit E A t q w))"
proof -
  obtain w1 r1 where l: "retry_loop E A t q 0 w = (w1, r1)"
    by (cases "retry_loop E A t q 0 w") auto
  from retry_loop_requests[OF l] assms l show ?thesis
    by (cases r1) (auto simp: process_unit_def Let_def sleep_with_jitter_eq emit_def)
qed

lemma already_processed_trace [simp]:
  "already_processed d s a b (w\<lparr>trace := x\<rparr>) = already_processed d s a b w"
  by (simp add: already_processed_def file_nonempty_def)

lemma quarters_loop_all_processed:
  assumes "\<forall>q \<in> set qs. already_processed [arg_output_dir A, safe_filename t]
              (unit_stem (safe_filename t) (arg_year A) q) (arg_save_txt A) (arg_save_csv A) w"
  shows "quarters_loop E A t qs w =
           (w\<lparr>trace := trace w @ map (\<lambda>q. Print (SKIP_DONE t (arg_year A) q)) qs\<rparr>, Inr ())"
  using assms
proof (induction qs arbitrary: w)
  case Nil
  then show ?case by simp
next
  case (Cons q qs)
  let ?w1 = "emit (Print (SKIP_DONE t (arg_year A) q)) w"
  from Cons.prems have p: "process_unit E A t q w = (?w1, Inr ())"
    by (simp add: process_unit_def Let_def)
  from Cons.prems have "\<forall>q \<in> set qs. already_processed [arg_output_dir A, safe_filename t]
              (unit_stem (safe_filename t) (arg_year A) q) (arg_save_txt A) (arg_save_csv A) ?w1"
    by (simp add: emit_def)
  from Cons.IH[OF this] p show ?case
    by (simp add: emit_def)
qed

lemma tickers_loop_all_processed:
  assumes "\<forall>t \<in> set ts. \<forall>q \<in> set (arg_quarters A). already_processed [arg_output_dir A, safe_filename t]
              (unit_stem (safe_filename t) (arg_year A) q) (arg_save_txt A) (arg_save_csv A) w"
  shows "tickers_loop E A ts w =
           (w\<lparr>trace := trace w @ map (\<lambda>(t, q). Print (SKIP_DONE t (arg_year A) q))
                                    (List.product ts (arg_quarters A))\<rparr>, Inr ())"
  using assms
proof (induction ts arbitrary: w)
  case Nil
  then show ?case by simp
next
  case (Cons t ts)
  let ?w1 = "w\<lparr>trace := trace w @ map (\<lambda>q. Print (SKIP_DONE t (arg_year A) q)) (arg_quarters A)\<rparr>"
  from Cons.prems have q: "quarters_loop E A t (arg_quarters A) w = (?w1, Inr ())"
    by (intro quarters_loop_all_processed) simp
  from Cons.prems have "\<forall>t \<in> set ts. \<forall>q \<in> set (arg_quarters A). already_processed [arg_output_dir A, safe_filename t]
              (unit_stem (safe_filename t) (arg_year A) q) (arg_save_txt A) (arg_save_csv A) ?w1"
    by simp
  from Cons.IH[OF this] q show ?case
    by (simp add: comp_def)
qed












lemma sleep_with_jitter_ok: "snd (sleep_with_jitter E b j w) = Inr ()"
  by (simp add: sleep_with_jitter_eq)




lemma retry_loop_files:
  assumes "retry_loop E A t q attempt w = (w', r)"
  shows "files w' = files w \<or> (\<exists>evs. trace w' = evs @ [Print (OK t (arg_year A) q)])"
  using assms
proof (induction E A t q attempt w rule: retry_loop.induct)
  case (1 E A t q attempt w)
  obtain w1 c where b: "attempt_body E A t q attempt w = (w1, c)"
    by (cases "attempt_body E A t q attempt w") auto
  obtain wg rg where g: "get_transcript_html E (unit_url t (arg_year A) q) (Some (arg_cfg A)) w = (wg, rg)"
    by (cases "get_transcript_html E (unit_url t (arg_year A) q) (Some (arg_cfg A)) w") auto
  note f = attempt_body_files[OF g b]
  show ?case
  proof (cases c)
    case Continue
    with 1(2) b have "retry_loop E A t q (attempt + 1) w1 = (w', r)"
      by (simp add: retry_loop.simps[of E A t q attempt w])
    from 1(1)[OF b[symmetric] Continue this] f Continue show ?thesis by auto
  next
    case Break
    with 1(2) b have "w' = w1"
      by (simp add: retry_loop.simps[of E A t q attempt w])
    with f show ?thesis by auto
  next
    case (Raise e)
    with 1(2) b have "w' = w1"
      by (simp add: retry_loop.simps[of E A t q attempt w])
    with f Raise show ?thesis by auto
  qed
qed

lemma get_transcript_html_trace_grows:
  assumes "get_transcript_html E u cfg0 w = (w', r)"
  shows "length (trace w) < length (trace w')"
proof -
  define cfg where "cfg = (case cfg0 of None \<Rightarrow> ScrapeConfig_default | Some c \<Rightarrow> c)"
  define base_url where "base_url = (if endswith u ''/'' then u else u @ ''/'')"
  obtain w1 r1 where f: "fetch_fragment E base_url w = (w1, r1)"
    by (cases "fetch_fragment E base_url w") auto
  then have n1: "length (trace w1) = Suc (length (trace w))"
    by (auto simp: fetch_fragment_eq emit_def)
  show ?thesis
  proof (cases r1)
    case (Inl e)
    with assms f n1 show ?thesis
      by (simp add: get_transcript_html_def Let_def base_url_def[symmetric])
  next
    case (Inr first)
    define frags0 where "frags0 = (case first of None \<Rightarrow> [] | Some b \<Rightarrow> if b \<noteq> [] then [b] else [])"
    obtain w2 r2 where p: "parts_loop E base_url cfg [1..max_parts cfg] frags0 w1 = (w2, r2)"
      by (cases "parts_loop E base_url cfg [1..max_parts cfg] frags0 w1") auto
    from parts_loop_quiet[OF p] have "length (trace w1) \<le> length (trace w2)"
      by (auto simp: quiet_def)
    moreover from assms f Inr p have "w' = w2"
      by (auto simp: get_transcript_html_def Let_def base_url_def[symmetric] cfg_def[symmetric]
          frags0_def[symmetric] split: sum.splits if_splits)
    ultimately show ?thesis using n1 by simp
  qed
qed

lemma attempt_body_trace_grows:
  assumes "attempt_body E A t q attempt w = (w', c)"
  shows "length (trace w) < length (trace w')"
proof -
  obtain w1 r1 where g: "get_transcript_html E (unit_url t (arg_year A) q) (Some (arg_cfg A)) w = (w1, r1)"
    by (cases "get_transcript_html E (unit_url t (arg_year A) q) (Some (arg_cfg A)) w") auto
  have "length (trace w1) \<le> length (trace w')"
  proof (cases r1)
    case (Inr html)
    with assms g show ?thesis
      by (auto simp: attempt_body_def Let_def emit_def save_transcript_txt_from_text_def
          save_transcript_csv_from_blocks_def backoff_delay_s_def random_def time_sleep_def
          split: if_splits)
  next
    case (Inl e)
    with assms g show ?thesis
      by (cases e)
         (auto simp: attempt_body_def Let_def emit_def backoff_delay_s_def random_def time_sleep_def
           split: if_splits)
  qed
  with get_transcript_html_trace_grows[OF g] show ?thesis by simp
qed

lemma retry_loop_trace_grows:
  assumes "retry_loop E A t q attempt w = (w', r)"
  shows "length (trace w) < length (trace w')"
  using assms
proof (induction E A t q attempt w rule: retry_loop.induct)
  case (1 E A t q attempt w)
  obtain w1 c where b: "attempt_body E A t q attempt w = (w1, c)"
    by (cases "attempt_body E A t q attempt w") auto
  note n1 = attempt_body_trace_grows[OF b]
  show ?case
  proof (cases c)
    case Continue
    with 1(2) b have "retry_loop E A t q (attempt + 1) w1 = (w', r)"
      by (simp add: retry_loop.simps[of E A t q attempt w])
    from 1(1)[OF b[symmetric] Continue this] n1 show ?thesis by simp
  next
    case Break
    with 1(2) b n1 show ?thesis
      by (simp add: retry_loop.simps[of E A t q attempt w])
  next
    case (Raise e)
    with 1(2) b n1 show ?thesis
      by (simp add: retry_loop.simps[of E A t q attempt w])
  qed
qed


lemma no_fragments_not_rate_limited: "\<not> is_rate_limited_message no_fragments_message"
  by code_simp

lemma read_tickers_csv_example: "read_tickers_from_sandp_csv csv_example = Inr [''A'']"
  by code_simp

lemma example_paths:
  "safe_filename ''A'' = ''A''" "unit_stem ''A'' 2024 1 = ''A_2024_Q1''"
  by code_simp+


lemma fetch_outcome_env_example: "fetch_outcome (env_example []) n u = Inr None"
  by (simp add: fetch_outcome_def env_example_def net_of_def fetch_fragment_response_def)

lemma get_transcript_html_env_example:
  assumes "get_transcript_html (env_example []) u cfg0 w = (w', r)"
  shows "r = Inl (TranscriptScrapeError no_fragments_message)"
proof -
  let ?E = "env_example []"
  define b where "b = (if endswith u ''/'' then u else u @ ''/'')"
  define cfg where "cfg = (case cfg0 of None \<Rightarrow> ScrapeConfig_default | Some c \<Rightarrow> c)"
  define w1 where "w1 = emit (Request b) (w\<lparr>n_req := Suc (n_req w)\<rparr>)"
  obtain w2 r2 where p: "parts_loop ?E b cfg [1..max_parts cfg] [] w1 = (w2, r2)"
    by (cases "parts_loop ?E b cfg [1..max_parts cfg] [] w1") auto
  have a: "\<forall>x \<in> set (outcomes ?E (n_req w1) b [1..max_parts cfg]). x = Inr None"
    by (auto simp: in_set_conv_nth outcomes_nth fetch_outcome_env_example)
  have "\<not> is_content (Inr None)" by (simp add: is_content_def)
  with a have "\<forall>x \<in> set (outcomes ?E (n_req w1) b [1..max_parts cfg]). \<not> is_content x"
    by metis
  from parts_loop_no_content[OF this p] a have "r2 = Inr []" by blast
  with assms p show ?thesis
    unfolding get_transcript_html_def Let_def b_def[symmetric] cfg_def[symmetric]
    by (simp add: fetch_fragment_eq fetch_outcome_env_example w1_def)
qed

lemma retry_loop_env_example:
  assumes "retry_loop (env_example []) A t q attempt w = (w', r)"
  shows "r = Inr () \<and> files w' = files w
       \<and> (\<exists>evs. trace w' = trace w @ evs @ [Print (SKIP t (arg_year A) q (TranscriptScrapeError no_fragments_message))])"
proof -
  let ?E = "env_example []"
  obtain w1 r1 where g: "get_transcript_html ?E (unit_url t (arg_year A) q) (Some (arg_cfg A)) w = (w1, r1)"
    by (cases "get_transcript_html ?E (unit_url t (arg_year A) q) (Some (arg_cfg A)) w") auto
  from get_transcript_html_env_example[OF g]
  have r1: "r1 = Inl (TranscriptScrapeError no_fragments_message)" .
  obtain w2 c where b: "attempt_body ?E A t q attempt w = (w2, c)"
    by (cases "attempt_body ?E A t q attempt w") auto
  from attempt_body_cases[OF g b] have
    "\<forall>m. r1 = Inl (TranscriptScrapeError m) \<and> \<not> is_rate_limited_message m
        \<longrightarrow> c = Break \<and> trace w2 = trace w1 @ [Print (SKIP t (arg_year A) q (TranscriptScrapeError m))]
            \<and> files w2 = files w"
    by (elim conjE)
  with r1 no_fragments_not_rate_limited have
    c: "c = Break" and tr: "trace w2 = trace w1 @ [Print (SKIP t (arg_year A) q (TranscriptScrapeError no_fragments_message))]"
    and fl: "files w2 = files w"
    by blast+
  from get_transcript_html_quiet[OF g] obtain ev1 where "trace w1 = trace w @ ev1"
    by (auto simp: quiet_def)
  with assms b c tr fl show ?thesis
    by (simp add: retry_loop.simps[of ?E A t q attempt w])
qed

lemma process_unit_env_example:
  assumes "\<not> already_processed [arg_output_dir A, safe_filename t]
              (unit_stem (safe_filename t) (arg_year A) q) (arg_save_txt A) (arg_save_csv A) w"
  shows "snd (process_unit (env_example []) A t q w) = Inr ()
       \<and> files (fst (process_unit (env_example []) A t q w)) = files w"
proof -
  obtain w1 r1 where l: "retry_loop (env_example []) A t q 0 w = (w1, r1)"
    by (cases "retry_loop (env_example []) A t q 0 w") auto
  from retry_loop_env_example[OF l] assms l show ?thesis
    by (auto simp: process_unit_def Let_def sleep_with_jitter_eq emit_def)
qed

lemma fetch_all_one_unit:
  "fetch_all_transcripts_for_year E args_example csv_example w = process_unit E args_example ''A'' 1 w"
  by (cases "process_unit E args_example ''A'' 1 w")
     (auto simp: fetch_all_transcripts_for_year_def read_tickers_csv_example args_example_def
       split: sum.splits)

lemma already_processed_no_files:
  "files w = (\<lambda>p. None) \<Longrightarrow> \<not> already_processed d s a b w"
  by (auto simp: already_processed_def file_nonempty_def)

lemma already_processed_world_done:
  "already_processed [''out'', ''A''] ''A_2024_Q1'' True True world_done"
  by (simp add: already_processed_def file_nonempty_def world_done_def world_init_def)















text \<open>
  C6 fails as stated. With a network on which every fragment is absent the only unit of the
  first run ends under \<open>SKIP\<close> and writes no file, so the second run over the same output
  directory requests it again. And with neither output requested a unit is never taken as
  processed, whatever is on disk.
\<close>

theorem second_run_refetches_counterexample:
  "snd (fetch_all_transcripts_for_year (env_example []) args_example csv_example world_init) = Inr ()
   \<and> n_req (fst (fetch_all_transcripts_for_year (env_example []) args_example csv_example world_init))
       < n_req (fst (fetch_all_transcripts_for_year (env_example []) args_example csv_example
                      (fst (fetch_all_transcripts_for_year (env_example []) args_example csv_example
                              world_init))))
   \<and> \<not> already_processed [''out'', ''A''] ''A_2024_Q1'' False False world_done"
proof -
  let ?E = "env_example []"
  let ?w1 = "fst (process_unit ?E args_example ''A'' 1 world_init)"
  have n0: "\<not> already_processed [arg_output_dir args_example, safe_filename ''A'']
              (unit_stem (safe_filename ''A'') (arg_year args_example) 1)
              (arg_save_txt args_example) (arg_save_csv args_example) world_init"
    by (rule already_processed_no_files) (simp add: world_init_def)
  from process_unit_env_example[OF n0] have
    r1: "snd (process_unit ?E args_example ''A'' 1 world_init) = Inr ()"
    and f1: "files ?w1 = files world_init"
    by simp_all
  have n1: "\<not> already_processed [arg_output_dir args_example, safe_filename ''A'']
              (unit_stem (safe_filename ''A'') (arg_year args_example) 1)
              (arg_save_txt args_example) (arg_save_csv args_example) ?w1"
    using f1 by (intro already_processed_no_files) (simp add: world_init_def)
  from process_unit_requests[OF n1, of ?E] have
    "n_req ?w1 < n_req (fst (process_unit ?E args_example ''A'' 1 ?w1))" .
  with r1 show ?thesis
    by (simp add: fetch_all_one_unit already_processed_def)
qed

text \<open>
  C6, amended. A unit counts as already processed exactly when at least one output is
  requested and every requested output file exists and is non-empty. Such a unit is skipped
  with one printed line and nothing else: no request, no file written. A unit that does not
  count as processed is requested at least once. Hence a run that starts with every unit of
  a non-empty ticker list already processed makes no request and prints \<open>SKIP-DONE\<close> for
  each unit in order, leaving everything but the trace as it was. A pass that succeeds leaves
  its unit processed exactly when an output is requested and, if the text is requested, the
  normalized text is not empty. A pass whose assembly raises, or that is rate-limited,
  writes no file; a pass that meets a scrape error which is no rate limit ends the unit with
  its \<open>SKIP\<close> line; and a unit whose retry loop ends with a \<open>SKIP\<close> line has ended
  normally and leaves the files as they were when the unit started, so that it counts as
  processed after the unit exactly when it did before, and a later run fetches it again.
\<close>

theorem skip_already_processed:
  fixes E :: env and A :: args and w :: world and t :: string and q :: int
  defines "ticker_dir \<equiv> [arg_output_dir A, safe_filename t]"
  defines "stem \<equiv> unit_stem (safe_filename t) (arg_year A) q"
  defines "done \<equiv> already_processed ticker_dir stem (arg_save_txt A) (arg_save_csv A)"
  shows "(done w \<longleftrightarrow> (arg_save_txt A \<or> arg_save_csv A)
                    \<and> (arg_save_txt A \<longrightarrow> file_nonempty w (ticker_dir @ [stem @ ''.txt'']))
                    \<and> (arg_save_csv A \<longrightarrow> file_nonempty w (ticker_dir @ [stem @ ''.csv''])))
       \<and> (done w \<longrightarrow> process_unit E A t q w = (emit (Print (SKIP_DONE t (arg_year A) q)) w, Inr ()))
       \<and> (\<not> done w \<longrightarrow> n_req w < n_req (fst (process_unit E A t q w)))
       \<and> (\<forall>tickers. read_tickers_from_sandp_csv tickers_csv = Inr tickers \<and> tickers \<noteq> []
             \<and> (\<forall>t' \<in> set tickers. \<forall>q' \<in> set (arg_quarters A).
                   already_processed [arg_output_dir A, safe_filename t']
                     (unit_stem (safe_filename t') (arg_year A) q') (arg_save_txt A) (arg_save_csv A) w)
             \<longrightarrow> fetch_all_transcripts_for_year E A tickers_csv w
                   = (w\<lparr>trace := trace w @ map (\<lambda>(t', q'). Print (SKIP_DONE t' (arg_year A) q'))
                                            (List.product tickers (arg_quarters A))\<rparr>, Inr ()))
       \<and> (\<forall>attempt html.
             snd (get_transcript_html E (unit_url t (arg_year A) q) (Some (arg_cfg A)) w) = Inr html
             \<and> \<not> is_rate_limited_message (transcript_text_from_html E html)
             \<longrightarrow> (done (fst (attempt_body E A t q attempt w))
                   \<longleftrightarrow> (arg_save_txt A \<or> arg_save_csv A)
                       \<and> (arg_save_txt A \<longrightarrow> transcript_text_from_html E html \<noteq> [])))
       \<and> (\<forall>attempt.
             (\<exists>e. snd (get_transcript_html E (unit_url t (arg_year A) q) (Some (arg_cfg A)) w) = Inl e)
             \<or> rate_limited_pass E A t q w
             \<longrightarrow> files (fst (attempt_body E A t q attempt w)) = files w)
       \<and> (\<forall>attempt m.
             snd (get_transcript_html E (unit_url t (arg_year A) q) (Some (arg_cfg A)) w)
               = Inl (TranscriptScrapeError m) \<and> \<not> is_rate_limited_message m
             \<longrightarrow> snd (attempt_body E A t q attempt w) = Break
                 \<and> last (trace (fst (attempt_body E A t q attempt w)))
                     = Print (SKIP t (arg_year A) q (TranscriptScrapeError m)))
       \<and> (\<forall>e. last (trace (fst (retry_loop E A t q 0 w))) = Print (SKIP t (arg_year A) q e)
             \<longrightarrow> files (fst (retry_loop E A t q 0 w)) = files w
                 \<and> snd (retry_loop E A t q 0 w) = Inr ()
                 \<and> done (fst (retry_loop E A t q 0 w)) = done w)"
proof -
  have c1: "done w \<longleftrightarrow> (arg_save_txt A \<or> arg_save_csv A)
                    \<and> (arg_save_txt A \<longrightarrow> file_nonempty w (ticker_dir @ [stem @ ''.txt'']))
                    \<and> (arg_save_csv A \<longrightarrow> file_nonempty w (ticker_dir @ [stem @ ''.csv'']))"
    by (auto simp: done_def already_processed_def)
  have c2: "done w \<longrightarrow> process_unit E A t q w = (emit (Print (SKIP_DONE t (arg_year A) q)) w, Inr ())"
    by (simp add: done_def ticker_dir_def stem_def process_unit_def Let_def)
  have c3: "\<not> done w \<longrightarrow> n_req w < n_req (fst (process_unit E A t q w))"
    using process_unit_requests[of A t q w E] by (simp add: done_def ticker_dir_def stem_def)
  have c4: "fetch_all_transcripts_for_year E A tickers_csv w
                   = (w\<lparr>trace := trace w @ map (\<lambda>(t', q'). Print (SKIP_DONE t' (arg_year A) q'))
                                            (List.product tickers (arg_quarters A))\<rparr>, Inr ())"
    if "read_tickers_from_sandp_csv tickers_csv = Inr tickers" "tickers \<noteq> []"
      "\<forall>t' \<in> set tickers. \<forall>q' \<in> set (arg_quarters A).
                   already_processed [arg_output_dir A, safe_filename t']
                     (unit_stem (safe_filename t') (arg_year A) q') (arg_save_txt A) (arg_save_csv A) w"
    for tickers
    using that(1,2) tickers_loop_all_processed[OF that(3), of E]
    by (simp add: fetch_all_transcripts_for_year_def)
  have c5: "done (fst (attempt_body E A t q attempt w))
                   \<longleftrightarrow> (arg_save_txt A \<or> arg_save_csv A)
                       \<and> (arg_save_txt A \<longrightarrow> transcript_text_from_html E html \<noteq> [])"
    if h: "snd (get_transcript_html E (unit_url t (arg_year A) q) (Some (arg_cfg A)) w) = Inr html"
      "\<not> is_rate_limited_message (transcript_text_from_html E html)"
    for attempt html
  proof -
    obtain w1 where g: "get_transcript_html E (unit_url t (arg_year A) q) (Some (arg_cfg A)) w = (w1, Inr html)"
      using h(1) by (metis surjective_pairing)
    obtain w2 c where b: "attempt_body E A t q attempt w = (w2, c)"
      by (cases "attempt_body E A t q attempt w") auto
    from attempt_body_saved[OF g h(2) b] b show ?thesis
      by (simp add: done_def ticker_dir_def stem_def)
  qed
  have c6: "files (fst (attempt_body E A t q attempt w)) = files w"
    if h: "(\<exists>e. snd (get_transcript_html E (unit_url t (arg_year A) q) (Some (arg_cfg A)) w) = Inl e)
             \<or> rate_limited_pass E A t q w"
    for attempt
  proof -
    obtain w1 r1 where g: "get_transcript_html E (unit_url t (arg_year A) q) (Some (arg_cfg A)) w = (w1, r1)"
      by (cases "get_transcript_html E (unit_url t (arg_year A) q) (Some (arg_cfg A)) w") auto
    obtain w2 c where b: "attempt_body E A t q attempt w = (w2, c)"
      by (cases "attempt_body E A t q attempt w") auto
    from attempt_body_files[OF g b] h g b show ?thesis by auto
  qed
  have c7: "snd (attempt_body E A t q attempt w) = Break
                 \<and> last (trace (fst (attempt_body E A t q attempt w)))
                     = Print (SKIP t (arg_year A) q (TranscriptScrapeError m))"
    if h: "snd (get_transcript_html E (unit_url t (arg_year A) q) (Some (arg_cfg A)) w)
               = Inl (TranscriptScrapeError m) \<and> \<not> is_rate_limited_message m"
    for attempt m
  proof -
    obtain w1 r1 where g: "get_transcript_html E (unit_url t (arg_year A) q) (Some (arg_cfg A)) w = (w1, r1)"
      by (cases "get_transcript_html E (unit_url t (arg_year A) q) (Some (arg_cfg A)) w") auto
    obtain w2 c where b: "attempt_body E A t q attempt w = (w2, c)"
      by (cases "attempt_body E A t q attempt w") auto
    from attempt_body_cases[OF g b]
    have "\<forall>m. r1 = Inl (TranscriptScrapeError m) \<and> \<not> is_rate_limited_message m
            \<longrightarrow> c = Break \<and> trace w2 = trace w1 @ [Print (SKIP t (arg_year A) q (TranscriptScrapeError m))]
                \<and> files w2 = files w"
      by (elim conjE)
    with h g b show ?thesis by simp
  qed
  have c8: "files (fst (retry_loop E A t q 0 w)) = files w
                 \<and> snd (retry_loop E A t q 0 w) = Inr ()
                 \<and> done (fst (retry_loop E A t q 0 w)) = done w"
    if h: "last (trace (fst (retry_loop E A t q 0 w))) = Print (SKIP t (arg_year A) q e)" for e
  proof -
    obtain w1 r1 where l: "retry_loop E A t q 0 w = (w1, r1)"
      by (cases "retry_loop E A t q 0 w") auto
    from retry_loop_files[OF l] h l have f: "files w1 = files w" by auto
    from retry_loop_events[OF l] obtain evs where
      evs: "trace w1 = trace w @ evs"
        "case r1 of Inr u \<Rightarrow> ends_unit t (arg_year A) q evs | Inl e \<Rightarrow> unit_lines evs = []"
      by blast
    have r: "r1 = Inr ()"
    proof (cases r1)
      case (Inr u)
      then show ?thesis by simp
    next
      case (Inl e')
      with evs(2) have u: "unit_lines evs = []" by simp
      from retry_loop_trace_grows[OF l] evs(1) have "evs \<noteq> []" by auto
      then obtain evs' x where x: "evs = evs' @ [x]"
        by (metis rev_exhaust)
      with evs(1) h l have "x = Print (SKIP t (arg_year A) q e)" by simp
      with x u show ?thesis by simp
    qed
    from f have "done w1 = done w"
      by (simp add: done_def already_processed_def file_nonempty_def)
    with f r l show ?thesis by simp
  qed
  from c1 c2 c3 c4 c5 c6 c7 c8 show ?thesis by blast
qed

theorem skip_already_processed_witness:
  "fetch_all_transcripts_for_year (env_example []) args_example csv_example world_done
     = (world_done\<lparr>trace := [Print (SKIP_DONE ''A'' 2024 1)]\<rparr>, Inr ())"
proof -
  have ne: "[''A''] \<noteq> ([] :: string list)" by simp
  have ap: "\<forall>t' \<in> set [''A'']. \<forall>q' \<in> set (arg_quarters args_example).
              already_processed [arg_output_dir args_example, safe_filename t']
                (unit_stem (safe_filename t') (arg_year args_example) q')
                (arg_save_txt args_example) (arg_save_csv args_example) world_done"
    using already_processed_world_done by (simp add: args_example_def example_paths)
  from skip_already_processed[where E = "env_example []" and A = args_example and t = "''A''"
      and q = 1 and w = world_done and tickers_csv = csv_example]
  have "\<forall>tickers. read_tickers_from_sandp_csv csv_example = Inr tickers \<and> tickers \<noteq> []
             \<and> (\<forall>t' \<in> set tickers. \<forall>q' \<in> set (arg_quarters args_example).
                   already_processed [arg_output_dir args_example, safe_filename t']
                     (unit_stem (safe_filename t') (arg_year args_example) q')
                     (arg_save_txt args_example) (arg_save_csv args_example) world_done)
             \<longrightarrow> fetch_all_transcripts_for_year (env_example []) args_example csv_example world_done
                   = (world_done\<lparr>trace := trace world_done
                         @ map (\<lambda>(t', q'). Print (SKIP_DONE t' (arg_year args_example) q'))
                             (List.product tickers (arg_quarters args_example))\<rparr>, Inr ())"
    by (elim conjE)
  with read_tickers_csv_example ne ap
  have "fetch_all_transcripts_for_year (env_example []) args_example csv_example world_done
          = (world_done\<lparr>trace := trace world_done
                @ map (\<lambda>(t', q'). Print (SKIP_DONE t' (arg_year args_example) q'))
                    (List.product [''A''] (arg_quarters args_example))\<rparr>, Inr ())"
    by blast
  then show ?thesis
    by (simp add: args_example_def world_done_def world_init_def)
qed



text \<open>
  C8 fails as stated. With a base delay of one second, the unit whose outputs are on disk is
  ended by its \<open>SKIP-DONE\<close> line alone: the \<open>continue\<close> leaves the loop body before the
  pacing sleep, and no sleep and no random draw follow.
\<close>

theorem no_pacing_after_skip_done_counterexample:
  "arg_sleep_s args_example = 1
   \<and> already_processed [''out'', ''A''] ''A_2024_Q1'' True True world_done
   \<and> process_unit (env_example []) args_example ''A'' 1 world_done
       = (world_done\<lparr>trace := [Print (SKIP_DONE ''A'' 2024 1)]\<rparr>, Inr ())"
  using already_processed_world_done
  by (simp add: process_unit_def Let_def args_example_def example_paths emit_def world_done_def
      world_init_def)

text \<open>
  C8, amended to the units that are fetched. For a unit that is not already processed and
  whose retry loop ends without raising (under \<open>OK\<close>, \<open>SKIP\<close> or \<open>ERR\<close>), the events of
  the unit are those of the retry loop, ending with the unit's line, followed by the pacing
  sleep of \<open>max(0, base + r * max(0, jitter))\<close> seconds for the next random draw \<open>r\<close>, which
  is \<open>base + r * jitter\<close> when neither is negative; no sleep is made when base and jitter
  are both at most zero. A unit already processed gets no pacing sleep, and a unit whose
  retry loop raises ends the run. The next quarter starts from the world the unit leaves.
\<close>

theorem pacing_after_fetched_units:
  fixes E :: env and A :: args and w :: world and t :: string and q :: int
  defines "done \<equiv> already_processed [arg_output_dir A, safe_filename t]
                     (unit_stem (safe_filename t) (arg_year A) q) (arg_save_txt A) (arg_save_csv A) w"
  defines "w1 \<equiv> fst (retry_loop E A t q 0 w)"
  defines "r1 \<equiv> snd (retry_loop E A t q 0 w)"
  defines "w' \<equiv> fst (process_unit E A t q w)"
  defines "res \<equiv> snd (process_unit E A t q w)"
  defines "delay \<equiv> max 0 (arg_sleep_s A + rnd E (n_rnd w1) * max 0 (arg_jitter_s A))"
  defines "pace \<equiv> (if arg_sleep_s A \<le> 0 \<and> arg_jitter_s A \<le> 0 then [] else [Sleep delay])"
  shows "(\<not> done \<and> r1 = Inr ()
            \<longrightarrow> res = Inr ()
                \<and> (\<exists>evs. ends_unit t (arg_year A) q evs \<and> trace w1 = trace w @ evs
                          \<and> trace w' = trace w @ evs @ pace))
       \<and> (0 \<le> arg_sleep_s A \<and> 0 \<le> arg_jitter_s A \<and> 0 \<le> rnd E (n_rnd w1)
            \<longrightarrow> delay = arg_sleep_s A + rnd E (n_rnd w1) * arg_jitter_s A)
       \<and> (done \<longrightarrow> res = Inr () \<and> trace w' = trace w @ [Print (SKIP_DONE t (arg_year A) q)]
                    \<and> n_rnd w' = n_rnd w)
       \<and> (\<not> done \<longrightarrow> (\<forall>e. r1 = Inl e \<longrightarrow> res = Inl e \<and> w' = w1))
       \<and> quarters_loop E A t (q # qs) w
            = (case res of Inl e \<Rightarrow> (w', Inl e) | Inr u \<Rightarrow> quarters_loop E A t qs w')"
proof -
  have l: "retry_loop E A t q 0 w = (w1, r1)"
    by (simp add: w1_def r1_def)
  have c1: "res = Inr () \<and> (\<exists>evs. ends_unit t (arg_year A) q evs \<and> trace w1 = trace w @ evs
                          \<and> trace w' = trace w @ evs @ pace)"
    if h: "\<not> done" "r1 = Inr ()"
  proof -
    from retry_loop_events[OF l] h(2) obtain evs where
      evs: "trace w1 = trace w @ evs" "ends_unit t (arg_year A) q evs"
      by auto
    from h l have p: "process_unit E A t q w = sleep_with_jitter E (arg_sleep_s A) (arg_jitter_s A) w1"
      by (simp add: process_unit_def Let_def done_def)
    then have "res = Inr ()" "trace w' = trace w1 @ pace"
      by (simp_all add: res_def w'_def sleep_with_jitter_eq pace_def delay_def emit_def)
    with evs show ?thesis by auto
  qed
  have c2: "delay = arg_sleep_s A + rnd E (n_rnd w1) * arg_jitter_s A"
    if "0 \<le> arg_sleep_s A \<and> 0 \<le> arg_jitter_s A \<and> 0 \<le> rnd E (n_rnd w1)"
    using that by (simp add: delay_def max_def)
  have c3: "res = Inr () \<and> trace w' = trace w @ [Print (SKIP_DONE t (arg_year A) q)] \<and> n_rnd w' = n_rnd w"
    if "done"
    using that by (simp add: res_def w'_def process_unit_def Let_def done_def emit_def)
  have c4: "\<forall>e. r1 = Inl e \<longrightarrow> res = Inl e \<and> w' = w1" if "\<not> done"
    using that l by (simp add: res_def w'_def process_unit_def Let_def done_def)
  have c5: "quarters_loop E A t (q # qs) w
            = (case res of Inl e \<Rightarrow> (w', Inl e) | Inr u \<Rightarrow> quarters_loop E A t qs w')"
    by (cases "process_unit E A t q w") (simp add: res_def w'_def split: sum.splits)
  from c1 c2 c3 c4 c5 show ?thesis by blast
qed

theorem pacing_after_fetched_units_witness:
  "last (trace (fst (process_unit (env_example []) args_example ''A'' 1 world_init))) = Sleep 1"
proof -
  let ?E = "env_example []"
  let ?w1 = "fst (retry_loop ?E args_example ''A'' 1 0 world_init)"
  have n0: "\<not> already_processed [arg_output_dir args_example, safe_filename ''A'']
              (unit_stem (safe_filename ''A'') (arg_year args_example) 1)
              (arg_save_txt args_example) (arg_save_csv args_example) world_init"
    by (rule already_processed_no_files) (simp add: world_init_def)
  have r: "snd (retry_loop ?E args_example ''A'' 1 0 world_init) = Inr ()"
    using retry_loop_env_example[of args_example "''A''" 1 0 world_init]
    by (cases "retry_loop ?E args_example ''A'' 1 0 world_init") simp
  from pacing_after_fetched_units[where E = ?E and A = args_example and t = "''A''" and q = 1
      and w = world_init and qs = "[]"]
  have "\<not> already_processed [arg_output_dir args_example, safe_filename ''A'']
              (unit_stem (safe_filename ''A'') (arg_year args_example) 1)
              (arg_save_txt args_example) (arg_save_csv args_example) world_init
        \<and> snd (retry_loop ?E args_example ''A'' 1 0 world_init) = Inr ()
        \<longrightarrow> snd (process_unit ?E args_example ''A'' 1 world_init) = Inr ()
          \<and> (\<exists>evs. ends_unit ''A'' (arg_year args_example) 1 evs \<and> trace ?w1 = trace world_init @ evs
              \<and> trace (fst (process_unit ?E args_example ''A'' 1 world_init))
                  = trace world_init @ evs @
                    (if arg_sleep_s args_example \<le> 0 \<and> arg_jitter_s args_example \<le> 0 then []
                     else [Sleep (max 0 (arg_sleep_s args_example
                              + rnd ?E (n_rnd ?w1) * max 0 (arg_jitter_s args_example)))]))"
    by (rule conjunct1)
  with n0 r obtain evs where
    "trace (fst (process_unit ?E args_example ''A'' 1 world_init))
                  = trace world_init @ evs @
                    (if arg_sleep_s args_example \<le> 0 \<and> arg_jitter_s args_example \<le> 0 then []
                     else [Sleep (max 0 (arg_sleep_s args_example
                              + rnd ?E (n_rnd ?w1) * max 0 (arg_jitter_s args_example)))])"
    by blast
  then show ?thesis
    by (simp add: args_example_def env_example_def)
qed


end
